theory Spec2Isabelle
  imports Complex_Main
begin

section \<open>Errors raised by the JavaScript sources\<close>

text \<open>
  Every \<^verbatim>\<open>throw\<close> of the sources and every failing property read on
  \<^verbatim>\<open>undefined\<close> is a value of this type; a function that can raise returns
  \<open>error + 'a\<close> with \<open>Inl\<close> for the error.
\<close>

datatype error =
    TypeError
  | IndexSizeError
  | Thrown string

section \<open>models.js: AdaptationSet.nextIndex\<close>

text \<open>
  \<^verbatim>\<open>static nextIndex()\<close> keeps its counter in the class property
  \<^verbatim>\<open>_nextIndex\<close>, which is \<^verbatim>\<open>undefined\<close> (\<open>None\<close>) until the first call.
  The call returns the new index together with the updated counter.

  The counter is a JavaScript number, an IEEE double holding an integer. Up to
  \<open>2 ^ 53\<close> every integer is a double and \<^verbatim>\<open>+= 1\<close> is exact; at \<open>2 ^ 53\<close> the sum
  \<open>2 ^ 53 + 1\<close> is not a double and rounds back to \<open>2 ^ 53\<close>, so the counter stops there.
  The counter starts unset and only this function writes it, so it never holds a value
  above \<open>2 ^ 53\<close>; the definition leaves such a value where it is.
\<close>

definition exact_limit :: nat where
  "exact_limit = 2 ^ 53"

definition counter_value :: "nat option \<Rightarrow> nat" where
  "counter_value counter = (case counter of None \<Rightarrow> 0 | Some k \<Rightarrow> k)"

definition nextIndex :: "nat option \<Rightarrow> nat \<times> nat option" where
  "nextIndex counter =
     (let k = (case counter of None \<Rightarrow> 0 | Some k \<Rightarrow> k);
          n = (if k < exact_limit then k + 1 else k)
      in (n, Some n))"

section \<open>models.js: SegmentTemplate.setup\<close>

text \<open>
  The attributes of a SegmentTemplate after \<^verbatim>\<open>this.attrs({...})\<close>: each one is
  parsed from the document or left \<^verbatim>\<open>undefined\<close> (\<open>None\<close>). The strings are
  the raw template strings; the integer attributes are read as unbounded integers.
\<close>

record segment_template =
  bitstreamSwitching :: "string option"
  initialization :: "string option"
  index :: "string option"
  media :: "string option"
  startNumber :: "int option"
  timescale :: "int option"
  duration :: "int option"
  presentationTimeOffset :: "int option"

text \<open>
  Modelled from the spec: \<^verbatim>\<open>Model.inheritFrom(type, 'segmentTemplate', names)\<close> is
  called by the source but its body is not part of the repository files at hand. The spec
  says a missing attribute is filled from the ancestor's SegmentTemplate, and that a value
  already present is never overwritten. \<open>inherit_value own theirs\<close> is that rule for one
  attribute; \<open>inheritFrom ancestor t\<close> applies it to every attribute named by
  \<^verbatim>\<open>Object.keys(this.attributeDefinitions)\<close>, i.e. to all eight. The ancestor argument
  is the \<^verbatim>\<open>segmentTemplate\<close> property of the nearest ancestor of the given type,
  \<open>None\<close> when there is no such ancestor or it has no template.
\<close>

definition inherit_value :: "'a option \<Rightarrow> 'a option \<Rightarrow> 'a option" where
  "inherit_value own theirs = (case own of None \<Rightarrow> theirs | Some v \<Rightarrow> Some v)"

definition inheritFrom :: "segment_template option \<Rightarrow> segment_template \<Rightarrow> segment_template" where
  "inheritFrom ancestor t =
     (case ancestor of
        None \<Rightarrow> t
      | Some a \<Rightarrow>
          \<lparr> bitstreamSwitching = inherit_value (bitstreamSwitching t) (bitstreamSwitching a),
            initialization = inherit_value (initialization t) (initialization a),
            index = inherit_value (index t) (index a),
            media = inherit_value (media t) (media a),
            startNumber = inherit_value (startNumber t) (startNumber a),
            timescale = inherit_value (timescale t) (timescale a),
            duration = inherit_value (duration t) (duration a),
            presentationTimeOffset =
              inherit_value (presentationTimeOffset t) (presentationTimeOffset a) \<rparr>)"

text \<open>
  The three \<^verbatim>\<open>if (this.x == undefined) this.x = ...\<close> statements of
  \<^verbatim>\<open>SegmentTemplate.setup\<close>, in source order.
\<close>

definition default_timescale :: "segment_template \<Rightarrow> segment_template" where
  "default_timescale t = (if timescale t = None then t\<lparr>timescale := Some 1\<rparr> else t)"

definition default_startNumber :: "segment_template \<Rightarrow> segment_template" where
  "default_startNumber t = (if startNumber t = None then t\<lparr>startNumber := Some 1\<rparr> else t)"

definition default_presentationTimeOffset :: "segment_template \<Rightarrow> segment_template" where
  "default_presentationTimeOffset t =
     (if presentationTimeOffset t = None then t\<lparr>presentationTimeOffset := Some 0\<rparr> else t)"

text \<open>
  \<^verbatim>\<open>SegmentTemplate.setup\<close>: \<open>attrs\<close> is the template as parsed, \<open>adaptationSetTemplate\<close>
  and \<open>periodTemplate\<close> are the templates of the enclosing AdaptationSet and Period. The
  built-in defaults are written first, then the two \<^verbatim>\<open>inheritFrom\<close> calls run,
  AdaptationSet before Period, exactly as in the source. (The SegmentTimeline child set up
  in between carries no attribute of the template and is left out.)
\<close>

definition SegmentTemplate_setup ::
  "segment_template \<Rightarrow> segment_template option \<Rightarrow> segment_template option \<Rightarrow> segment_template"
where
  "SegmentTemplate_setup attrs adaptationSetTemplate periodTemplate =
     (let t1 = default_timescale attrs;
          t2 = default_startNumber t1;
          t3 = default_presentationTimeOffset t2;
          t4 = inheritFrom adaptationSetTemplate t3
      in inheritFrom periodTemplate t4)"

text \<open>
  The precedence the specification words: the template's own value, then the
  AdaptationSet-level value, then the Period-level value; the first one present wins.
  \<open>spec_with_default\<close> adds the built-in default as the last resort.
\<close>

definition spec_precedence :: "'a option \<Rightarrow> 'a option \<Rightarrow> 'a option \<Rightarrow> 'a option" where
  "spec_precedence own fromAdaptationSet fromPeriod =
     (case own of
        Some v \<Rightarrow> Some v
      | None \<Rightarrow> (case fromAdaptationSet of Some v \<Rightarrow> Some v | None \<Rightarrow> fromPeriod))"

definition spec_with_default :: "'a \<Rightarrow> 'a option \<Rightarrow> 'a option \<Rightarrow> 'a option \<Rightarrow> 'a option" where
  "spec_with_default d own fromAdaptationSet fromPeriod =
     (case spec_precedence own fromAdaptationSet fromPeriod of
        Some v \<Rightarrow> Some v
      | None \<Rightarrow> Some d)"

definition attr_of :: "(segment_template \<Rightarrow> 'a option) \<Rightarrow> segment_template option \<Rightarrow> 'a option" where
  "attr_of field ancestor = (case ancestor of None \<Rightarrow> None | Some a \<Rightarrow> field a)"

text \<open>Two concrete templates used to evaluate the setup.\<close>

definition representation_level_template :: segment_template where
  "representation_level_template =
     \<lparr> bitstreamSwitching = None, initialization = None, index = None,
       media = Some ''seg-$Number$.m4s'', startNumber = None, timescale = None,
       duration = None, presentationTimeOffset = None \<rparr>"

definition adaptation_set_level_template :: segment_template where
  "adaptation_set_level_template =
     \<lparr> bitstreamSwitching = None, initialization = Some ''init.mp4'', index = None,
       media = None, startNumber = Some 5, timescale = Some 90000,
       duration = Some 180000, presentationTimeOffset = Some 7 \<rparr>"

section \<open>models.js: Representation.setup and AdaptationSet.setup\<close>

text \<open>
  What Representation.setup reads of an ancestor node (AdaptationSet or Period): its
  \<^verbatim>\<open>segmentTemplate\<close> property. \<^verbatim>\<open>this.ancestor(T)\<close> yields the node or
  nothing (\<open>None\<close>).
\<close>

record ancestor_node =
  segmentTemplate :: "segment_template option"

definition template_of :: "ancestor_node option \<Rightarrow> segment_template option" where
  "template_of node = (case node of None \<Rightarrow> None | Some n \<Rightarrow> segmentTemplate n)"

text \<open>
  The template part of \<^verbatim>\<open>Representation.setup\<close> (the last statement block of the
  method). \<open>own\<close> is the Representation's \<^verbatim>\<open>segmentTemplate\<close> after
  \<^verbatim>\<open>this.init(SegmentTemplate)\<close>. The constructor call
  \<^verbatim>\<open>new SegmentTemplate(defaultTemplate, this)\<close> runs code of the Model base class that
  is not among the repository files, so it is the parameter \<open>clone\<close>.
\<close>

definition Representation_setup_template ::
  "(segment_template \<Rightarrow> segment_template) \<Rightarrow> segment_template option \<Rightarrow>
     ancestor_node option \<Rightarrow> ancestor_node option \<Rightarrow> error + segment_template"
where
  "Representation_setup_template clone own adaptationSet period =
     (case own of
        Some t \<Rightarrow> Inr t
      | None \<Rightarrow>
          (let defaultTemplate =
                 (if adaptationSet \<noteq> None \<and> segmentTemplate (the adaptationSet) \<noteq> None
                  then segmentTemplate (the adaptationSet)
                  else if period \<noteq> None \<and> segmentTemplate (the period) \<noteq> None
                  then segmentTemplate (the period)
                  else None)
           in case defaultTemplate of
                None \<Rightarrow>
                  Inl (Thrown ''Representation must currently have a SegmentTemplate or one must appear in ancestry'')
              | Some d \<Rightarrow> Inr (clone d)))"

text \<open>
  A Representation as AdaptationSet.setup sees it, and the AdaptationSet it builds. The
  constructor draws its index from the shared counter before the children are set up, so
  the counter is advanced even when the mimeType fallback then fails.
\<close>

record representation =
  rep_id :: "string option"
  bandwidth :: "int option"
  mimeType :: "string option"
  codecs :: "string option"

record adaptation_set =
  as_index :: nat
  as_mimeType :: "string option"
  as_segmentTemplate :: "segment_template option"
  representations :: "representation list"

definition AdaptationSet_setup ::
  "nat option \<Rightarrow> string option \<Rightarrow> segment_template option \<Rightarrow> representation list \<Rightarrow>
     nat option \<times> (error + adaptation_set)"
where
  "AdaptationSet_setup counter mimeTypeAttr template reps =
     (case nextIndex counter of
        (i, counter') \<Rightarrow>
          (counter',
           if mimeTypeAttr = None then
             (case reps of
                [] \<Rightarrow> Inl TypeError
              | r # _ \<Rightarrow>
                  Inr \<lparr> as_index = i, as_mimeType = mimeType r,
                        as_segmentTemplate = template, representations = reps \<rparr>)
           else
             Inr \<lparr> as_index = i, as_mimeType = mimeTypeAttr,
                   as_segmentTemplate = template, representations = reps \<rparr>))"


text \<open>
  The AdaptationSets of a document are constructed one after the other
  (\<^verbatim>\<open>initAll(AdaptationSet)\<close>), each constructor drawing its index from the counter the
  previous one left. An input is what one constructor finds: the declared mimeType, the
  set's own template and its Representations. \<open>construct_all\<close> returns the counter after
  the last constructor and, in construction order, what each constructor produced.
  \<open>built_indices\<close> lists the \<^verbatim>\<open>index\<close> of every set that was built.
\<close>

type_synonym adaptation_set_input =
  "string option \<times> segment_template option \<times> representation list"

fun construct_all ::
  "nat option \<Rightarrow> adaptation_set_input list \<Rightarrow> nat option \<times> (error + adaptation_set) list"
where
  "construct_all counter [] = (counter, [])"
| "construct_all counter ((mimeTypeAttr, template, reps) # rest) =
     (case AdaptationSet_setup counter mimeTypeAttr template reps of
        (counter', r) \<Rightarrow>
          (case construct_all counter' rest of
             (counter'', rs) \<Rightarrow> (counter'', r # rs)))"

fun built_indices :: "(error + adaptation_set) list \<Rightarrow> nat list" where
  "built_indices [] = []"
| "built_indices (Inl e # rs) = built_indices rs"
| "built_indices (Inr a # rs) = as_index a # built_indices rs"

text \<open>
  Three sets in one document: a video set with a declared mimeType, a set with neither a
  mimeType nor a Representation, and an audio set that takes its mimeType from its
  Representation.
\<close>

definition example_inputs :: "adaptation_set_input list" where
  "example_inputs =
     [(Some ''video/mp4'', None, []),
      (None, None, []),
      (None, None,
       [\<lparr> rep_id = Some ''a1'', bandwidth = Some 64000, mimeType = Some ''audio/mp4'',
           codecs = None \<rparr>])]"


section \<open>Segments and the manifest values the window reads\<close>

text \<open>
  Modelled from the spec: class Segment is used by the window but is not among the
  repository files. The spec gives a segment a \<open>start\<close>, a duration and an
  \<open>end\<close> in seconds, a state that starts as \<open>pending\<close>, a URL that is memoized on
  first resolution, and equality by start and duration. The window's test
  \<^verbatim>\<open>segment.state >= Segment.downloaded\<close> together with its comment ("downloaded (or
  errored)") fixes the order of the state constants, kept in \<open>state_code\<close>. JavaScript
  numbers holding times are read as real numbers.
\<close>

datatype segment_state = pending | downloading | downloaded | errored

fun state_code :: "segment_state \<Rightarrow> nat" where
  "state_code pending = 0"
| "state_code downloading = 1"
| "state_code downloaded = 2"
| "state_code errored = 3"

record segment =
  start :: real
  seg_duration :: real
  seg_end :: real
  state :: segment_state
  cachedUrl :: "string option"

definition equal :: "segment \<Rightarrow> segment \<Rightarrow> bool" where
  "equal a b = (start a = start b \<and> seg_duration a = seg_duration b)"

text \<open>
  \<^verbatim>\<open>segment.url(true)\<close>: the cached URL when there is one, otherwise the URL resolved
  from the current representation (\<open>resolve\<close>), which the call then caches.
\<close>

definition url :: "(segment \<Rightarrow> string) \<Rightarrow> segment \<Rightarrow> string" where
  "url resolve seg = (case cachedUrl seg of Some u \<Rightarrow> u | None \<Rightarrow> resolve seg)"

text \<open>
  A segment as newly produced for the span \<open>[s, s + d)\<close>: pending, no URL cached.
\<close>

definition fresh_segment :: "real \<Rightarrow> real \<Rightarrow> segment" where
  "fresh_segment s d =
     \<lparr> start = s, seg_duration = d, seg_end = s + d, state = pending, cachedUrl = None \<rparr>"

text \<open>
  The manifest attributes read by the window and the controller, after
  \<^verbatim>\<open>Manifest.setup\<close>: \<open>suggestedPresentationDelay\<close> and \<open>minBufferTime\<close> have been
  given their defaults there (0 and 30000), so they are plain numbers;
  \<open>timeShiftBufferDepth\<close> is taken as declared. Durations are in milliseconds.
\<close>

record manifest =
  dynamic :: bool
  minimumUpdatePeriod :: "real option"
  minBufferTime :: real
  timeShiftBufferDepth :: real
  suggestedPresentationDelay :: real

section \<open>SegmentWindow: the segment list and its updates\<close>

record window =
  segments :: "segment list"
  playIndex :: "nat option"
  loadIndex :: "nat option"
  nextRangeStart :: "real option"

definition new_window :: window where
  "new_window = \<lparr> segments = [], playIndex = None, loadIndex = None, nextRangeStart = None \<rparr>"

text \<open>
  \<^verbatim>\<open>updateStatic\<close>: \<open>timelineDuration\<close> is \<^verbatim>\<open>this.timeline.duration\<close>,
  \<open>inRange\<close> is \<^verbatim>\<open>this.source.segmentsInRange\<close>.
\<close>

definition updateStatic ::
  "real option \<Rightarrow> (real \<Rightarrow> real \<Rightarrow> segment list) \<Rightarrow> window \<Rightarrow> error + window"
where
  "updateStatic timelineDuration inRange w =
     (case timelineDuration of
        None \<Rightarrow> Inl (Thrown ''cannot play static presentation with unknown duration'')
      | Some d \<Rightarrow> Inr (w\<lparr>segments := inRange 0 d, loadIndex := Some 0\<rparr>))"

text \<open>
  What \<^verbatim>\<open>updateDynamic\<close> reads from its presentation and source when it runs:
  the live edge, \<^verbatim>\<open>source.segmentAt(liveEdge)\<close>, the content found by
  \<^verbatim>\<open>source.contentAt(liveEdge)\<close> (its \<^verbatim>\<open>repeatSegment\<close> flag, the result of its
  \<^verbatim>\<open>segmentAt(presentation.endTime)\<close>, and its segments),
  \<^verbatim>\<open>source.segmentsInRange\<close>, and the manifest.
\<close>

record content =
  repeatSegment :: bool
  segmentAtEndTime :: "segment option"
  content_segments :: "segment list"

record dynamic_view =
  liveEdge :: real
  segmentAtLiveEdge :: "segment option"
  contentAtLiveEdge :: "content option"
  segmentsInRange :: "real \<Rightarrow> real \<Rightarrow> segment list"
  view_manifest :: manifest

text \<open>
  The anchor of the first update: the segment at the live edge, or, when there is none,
  the fallback taken from the content (lines 52 to 60). Reading \<^verbatim>\<open>.start\<close> or
  \<^verbatim>\<open>.repeatSegment\<close> of \<^verbatim>\<open>undefined\<close> is a TypeError.
\<close>

definition edgeSegment :: "dynamic_view \<Rightarrow> error + segment" where
  "edgeSegment v =
     (case segmentAtLiveEdge v of
        Some seg \<Rightarrow> Inr seg
      | None \<Rightarrow>
          (case contentAtLiveEdge v of
             None \<Rightarrow> Inl TypeError
           | Some c \<Rightarrow>
               if repeatSegment c then
                 (case segmentAtEndTime c of None \<Rightarrow> Inl TypeError | Some seg \<Rightarrow> Inr seg)
               else
                 (case content_segments c of
                    [] \<Rightarrow> Inl TypeError
                  | x # xs \<Rightarrow> Inr (last (x # xs)))))"

text \<open>
  Lines 62 to 80: the start chosen from the anchor's start. \<^verbatim>\<open>if
  (manifest.suggestedPresentationDelay)\<close> is JavaScript truthiness: a delay of 0, which is
  also what an undeclared delay has been set to, takes the else branch.
\<close>

definition firstRangeStart :: "manifest \<Rightarrow> real \<Rightarrow> real" where
  "firstRangeStart m edgeStart =
     (let rangeStart = edgeStart;
          timeshift = timeShiftBufferDepth m;
          minStart = rangeStart - timeshift;
          rangeStart =
            (if suggestedPresentationDelay m \<noteq> 0
             then rangeStart - suggestedPresentationDelay m
             else rangeStart - timeshift / 2);
          rangeStart = max rangeStart minStart;
          rangeStart = max rangeStart 0
      in rangeStart)"

definition rangeStartOf :: "dynamic_view \<Rightarrow> window \<Rightarrow> error + real" where
  "rangeStartOf v w =
     (case nextRangeStart w of
        Some r \<Rightarrow> Inr r
      | None \<Rightarrow>
          (case edgeSegment v of
             Inl e \<Rightarrow> Inl e
           | Inr seg \<Rightarrow> Inr (firstRangeStart (view_manifest v) (start seg))))"

text \<open>
  Lines 107 to 123, once a non-empty list of new segments is at hand. After the
  \<^verbatim>\<open>splice\<close> the list may be empty; \<^verbatim>\<open>newSegments[0].start\<close> is then a read on
  \<^verbatim>\<open>undefined\<close>. \<^verbatim>\<open>this.loadIndex || 0\<close> keeps a set index and turns an unset
  one into 0. Console output is not modelled.
\<close>

definition dropBoundaryDuplicate :: "segment \<Rightarrow> segment list \<Rightarrow> segment list" where
  "dropBoundaryDuplicate lastSegment newSegments =
     (if equal lastSegment (hd newSegments) then tl newSegments else newSegments)"

definition mergeSegments :: "segment list \<Rightarrow> window \<Rightarrow> error + window" where
  "mergeSegments newSegments w =
     (if length (segments w) > 0 then
        (let lastSegment = last (segments w);
             newSegments' = dropBoundaryDuplicate lastSegment newSegments
         in if newSegments' = [] then Inl TypeError
            else Inr (w\<lparr> segments := segments w @ newSegments',
                         nextRangeStart := Some (seg_end (last newSegments')),
                         loadIndex := Some (case loadIndex w of None \<Rightarrow> 0 | Some i \<Rightarrow> i) \<rparr>))
      else
        Inr (w\<lparr> segments := newSegments,
                 nextRangeStart := Some (seg_end (last newSegments)),
                 loadIndex := Some (case loadIndex w of None \<Rightarrow> 0 | Some i \<Rightarrow> i) \<rparr>))"

definition updateDynamic :: "dynamic_view \<Rightarrow> window \<Rightarrow> error + window" where
  "updateDynamic v w =
     (case rangeStartOf v w of
        Inl e \<Rightarrow> Inl e
      | Inr rangeStart \<Rightarrow>
          (let rangeEnd = liveEdge v;
               newSegments = segmentsInRange v rangeStart rangeEnd
           in if length newSegments = 0 then Inr w
              else mergeSegments newSegments w))"

section \<open>PresentationController: manifest loading\<close>

datatype controller_state =
    uninitialised
  | firstMPDLoaded
  | sourceBuffersCreated
  | sourcesInitialised
  | bufferAvailable

record controller =
  cstate :: controller_state
  loadingManifest :: bool
  manifestLoaded :: "real option"

definition new_controller :: controller where
  "new_controller = \<lparr> cstate = uninitialised, loadingManifest = False, manifestLoaded = None \<rparr>"

text \<open>
  Calls into the download collaborator: \<^verbatim>\<open>downloader.getMPD(url, processor)\<close> and
  \<^verbatim>\<open>downloader.getMedia(url, segment)\<close>, the segment named by its position in the
  window's list. Both are asynchronous; a function that issues requests returns them.
\<close>

datatype request = GetMPD string | GetMedia string nat

definition setState :: "controller_state \<Rightarrow> controller \<Rightarrow> controller" where
  "setState newState c = (if cstate c = newState then c else c\<lparr>cstate := newState\<rparr>)"

definition loadManifest :: "string \<Rightarrow> controller \<Rightarrow> controller \<times> request list" where
  "loadManifest manifestUrl c =
     (if loadingManifest c then (c, [])
      else (c\<lparr>loadingManifest := True\<rparr>, [GetMPD manifestUrl]))"

text \<open>
  \<^verbatim>\<open>loadedManifest(manifest)\<close>, \<open>now\<close> being \<^verbatim>\<open>performance.now()\<close>. The hand-over
  to \<^verbatim>\<open>presentation.appendManifest\<close> touches no field of the controller here.
\<close>

definition loadedManifest :: "real \<Rightarrow> controller \<Rightarrow> controller" where
  "loadedManifest now c =
     (let c1 = (if cstate c = uninitialised then setState firstMPDLoaded c else c)
      in c1\<lparr>manifestLoaded := Some now, loadingManifest := False\<rparr>)"

section \<open>SegmentWindow.downloadNextSegment\<close>

text \<open>
  Lines 198 to 212 for the segment at position \<open>i\<close>: \<open>available\<close> is
  \<^verbatim>\<open>segment.available()\<close> at the time of the call.
\<close>

definition startDownload ::
  "(segment \<Rightarrow> bool) \<Rightarrow> (segment \<Rightarrow> string) \<Rightarrow> window \<Rightarrow> controller \<Rightarrow> nat \<Rightarrow>
     window \<times> controller \<times> request list"
where
  "startDownload available resolve w c i =
     (let seg = segments w ! i in
      if \<not> available seg then (w, c, [])
      else
        (let u = url resolve seg;
             seg' = seg\<lparr>state := downloading, cachedUrl := Some u\<rparr>
         in (w\<lparr>segments := (segments w)[i := seg']\<rparr>, c, [GetMedia u i])))"

text \<open>
  \<open>timelineDuration\<close> is \<^verbatim>\<open>this.presentation.timeline.duration\<close>; the test
  \<^verbatim>\<open>duration && segment.end >= duration\<close> needs it defined and non-zero. With
  \<open>loadIndex\<close> past the list, \<^verbatim>\<open>segment.state\<close> is a read on \<^verbatim>\<open>undefined\<close>.
\<close>

definition downloadNextSegment ::
  "(segment \<Rightarrow> bool) \<Rightarrow> (segment \<Rightarrow> string) \<Rightarrow> real option \<Rightarrow> string \<Rightarrow>
     window \<Rightarrow> controller \<Rightarrow> error + window \<times> controller \<times> request list"
where
  "downloadNextSegment available resolve timelineDuration manifestUrl w c =
     (case loadIndex w of
        None \<Rightarrow> Inr (w, c, [])
      | Some li \<Rightarrow>
          if length (segments w) \<le> li then Inl TypeError
          else
            (let seg = segments w ! li in
             if state seg = downloading then Inr (w, c, [])
             else if state_code (state seg) \<ge> state_code downloaded then
               (if li + 1 = length (segments w) then
                  (if (case timelineDuration of
                         None \<Rightarrow> False
                       | Some d \<Rightarrow> d \<noteq> 0 \<and> seg_end seg \<ge> d)
                   then Inr (w, c, [])
                   else if loadingManifest c then Inr (w, c, [])
                   else (case loadManifest manifestUrl c of
                           (c', reqs) \<Rightarrow> Inr (w, c', reqs)))
                else
                  Inr (startDownload available resolve
                         (w\<lparr>loadIndex := Some (li + 1)\<rparr>) c (li + 1)))
             else Inr (startDownload available resolve w c li)))"

section \<open>PresentationController.tick\<close>

text \<open>
  The video element as the tick reads and writes it: \<^verbatim>\<open>currentTime\<close>, the list of
  buffered ranges (start, end), and whether \<^verbatim>\<open>play()\<close> has been called.
  \<^verbatim>\<open>video.buffered.start(0)\<close> on an empty range list raises IndexSizeError, as the
  platform defines it.
\<close>

record video =
  currentTime :: real
  buffered :: "(real \<times> real) list"
  playing :: bool

text \<open>
  What a tick did: the controller and the video after it, the requests it sent, the sources
  whose \<^verbatim>\<open>downloadNextSegment\<close> it called (in order), and the error it raised, if
  any. An error leaves the writes made before it in place.
\<close>

record 'src tick_outcome =
  controller_after :: controller
  video_after :: video
  sent_requests :: "request list"
  advanced :: "'src list"
  raised :: "error option"

text \<open>
  \<open>now\<close> is \<^verbatim>\<open>performance.now()\<close>. With \<^verbatim>\<open>manifestLoaded\<close> still undefined
  the difference is NaN and the comparison false.
\<close>

definition tick ::
  "real \<Rightarrow> string \<Rightarrow> manifest \<Rightarrow> 'src list \<Rightarrow> controller \<Rightarrow> video \<Rightarrow> 'src tick_outcome"
where
  "tick now manifestUrl m sources c v =
     (let (c1, reqs) =
            (if dynamic m
                \<and> (case minimumUpdatePeriod m of
                      None \<Rightarrow> False
                    | Some p \<Rightarrow>
                        p \<noteq> 0
                        \<and> (case manifestLoaded c of None \<Rightarrow> False | Some t \<Rightarrow> now - t \<ge> p))
             then loadManifest manifestUrl c
             else (c, []));
          current = currentTime v;
          remaining = (case buffered v of [] \<Rightarrow> 0 | r # _ \<Rightarrow> snd r - current);
          minBuffer = (minBufferTime m / 1000) * 2
      in if remaining < minBuffer then
           \<lparr> controller_after = c1, video_after = v, sent_requests = reqs,
             advanced = sources, raised = None \<rparr>
         else if cstate c1 = sourcesInitialised then
           (let c2 = setState bufferAvailable c1 in
            case buffered v of
              [] \<Rightarrow>
                \<lparr> controller_after = c2, video_after = v, sent_requests = reqs,
                  advanced = [], raised = Some IndexSizeError \<rparr>
            | r # _ \<Rightarrow>
                \<lparr> controller_after = c2,
                  video_after = v\<lparr>currentTime := fst r, playing := True\<rparr>,
                  sent_requests = reqs, advanced = [], raised = None \<rparr>)
         else
           \<lparr> controller_after = c1, video_after = v, sent_requests = reqs,
             advanced = [], raised = None \<rparr>)"


section \<open>Runs of one source's window and its controller\<close>

text \<open>
  The window of one source together with the controller, the requests sent so far and the
  number of manifest loads that have been requested and not yet answered. Everything runs
  on one thread, so a run is a sequence of events, each handled to completion:
  \<^item> \<open>Updated v\<close>: \<^verbatim>\<open>updateDynamic\<close> is called, reading \<open>v\<close>;
  \<^item> \<open>DownloadNext available d\<close>: \<^verbatim>\<open>downloadNextSegment\<close> is called;
  \<^item> \<open>LoadManifest\<close>: \<^verbatim>\<open>loadManifest\<close> is called (by the player or anyone else);
  \<^item> \<open>ManifestDelivered now\<close>: \<^verbatim>\<open>loadedManifest\<close> is called with the answer to
    an outstanding load;
  \<^item> \<open>Tick now m v available d\<close>: \<^verbatim>\<open>tick\<close> runs, the video element being \<open>v\<close>;
    when it advances the sources, this window's \<^verbatim>\<open>downloadNextSegment\<close> runs.
  A call that raises leaves the state as it was; the raising paths write nothing before
  they raise.

  Modelled from the spec: the download collaborator is not among the repository files.
  \<open>SegmentDone i ok\<close> is its report that the download of segment \<open>i\<close> ended: a
  segment that is \<open>downloading\<close> becomes \<open>downloaded\<close> or \<open>errored\<close>, any other report
  is ignored. \<open>ManifestFailed\<close> is an outstanding manifest load ending without an answer;
  no code of the controller runs then.
\<close>

record config =
  win :: window
  ctrl :: controller
  sent :: "request list"
  inflight :: nat

datatype event =
    Updated dynamic_view
  | DownloadNext "segment \<Rightarrow> bool" "real option"
  | SegmentDone nat bool
  | LoadManifest
  | ManifestDelivered real
  | ManifestFailed
  | Tick real manifest video "segment \<Rightarrow> bool" "real option"

definition initial_config :: "window \<Rightarrow> config" where
  "initial_config w = \<lparr> win = w, ctrl = new_controller, sent = [], inflight = 0 \<rparr>"

fun is_mpd :: "request \<Rightarrow> bool" where
  "is_mpd (GetMPD u) = True"
| "is_mpd (GetMedia u i) = False"

fun is_media_for :: "nat \<Rightarrow> request \<Rightarrow> bool" where
  "is_media_for i (GetMPD u) = False"
| "is_media_for i (GetMedia u j) = (i = j)"

definition mpd_requests :: "request list \<Rightarrow> nat" where
  "mpd_requests reqs = length (filter is_mpd reqs)"

definition media_requests_for :: "nat \<Rightarrow> request list \<Rightarrow> nat" where
  "media_requests_for i reqs = length (filter (is_media_for i) reqs)"

definition issue :: "request list \<Rightarrow> config \<Rightarrow> config" where
  "issue reqs s = s\<lparr>sent := sent s @ reqs, inflight := inflight s + mpd_requests reqs\<rparr>"

definition step_download ::
  "(segment \<Rightarrow> string) \<Rightarrow> string \<Rightarrow> (segment \<Rightarrow> bool) \<Rightarrow> real option \<Rightarrow> config \<Rightarrow> config"
where
  "step_download resolve manifestUrl available d s =
     (case downloadNextSegment available resolve d manifestUrl (win s) (ctrl s) of
        Inl e \<Rightarrow> s
      | Inr (w', c', reqs) \<Rightarrow> issue reqs (s\<lparr>win := w', ctrl := c'\<rparr>))"

definition segmentDone :: "nat \<Rightarrow> bool \<Rightarrow> window \<Rightarrow> window" where
  "segmentDone i ok w =
     (if i < length (segments w) \<and> state (segments w ! i) = downloading
      then w\<lparr>segments :=
               (segments w)[i := (segments w ! i)\<lparr>state := (if ok then downloaded else errored)\<rparr>]\<rparr>
      else w)"

fun step :: "(segment \<Rightarrow> string) \<Rightarrow> string \<Rightarrow> event \<Rightarrow> config \<Rightarrow> config" where
  "step resolve manifestUrl (Updated v) s =
     (case updateDynamic v (win s) of Inl e \<Rightarrow> s | Inr w' \<Rightarrow> s\<lparr>win := w'\<rparr>)"
| "step resolve manifestUrl (DownloadNext available d) s =
     step_download resolve manifestUrl available d s"
| "step resolve manifestUrl (SegmentDone i ok) s = s\<lparr>win := segmentDone i ok (win s)\<rparr>"
| "step resolve manifestUrl LoadManifest s =
     (case loadManifest manifestUrl (ctrl s) of (c', reqs) \<Rightarrow> issue reqs (s\<lparr>ctrl := c'\<rparr>))"
| "step resolve manifestUrl (ManifestDelivered now) s =
     (if inflight s = 0 then s
      else s\<lparr>ctrl := loadedManifest now (ctrl s), inflight := inflight s - 1\<rparr>)"
| "step resolve manifestUrl ManifestFailed s =
     (if inflight s = 0 then s else s\<lparr>inflight := inflight s - 1\<rparr>)"
| "step resolve manifestUrl (Tick now m v available d) s =
     (let out = tick now manifestUrl m [()] (ctrl s) v;
          s1 = issue (sent_requests out) (s\<lparr>ctrl := controller_after out\<rparr>)
      in if advanced out = [] then s1
         else step_download resolve manifestUrl available d s1)"

fun exec :: "(segment \<Rightarrow> string) \<Rightarrow> string \<Rightarrow> event list \<Rightarrow> config \<Rightarrow> config" where
  "exec resolve manifestUrl [] s = s"
| "exec resolve manifestUrl (e # es) s = exec resolve manifestUrl es (step resolve manifestUrl e s)"

text \<open>
  The source hands out new Segment objects: every segment a range query yields is pending.
  This is the one assumption made on an \<open>Updated\<close> event.
\<close>

fun fresh_event :: "event \<Rightarrow> bool" where
  "fresh_event (Updated v) =
     (\<forall>a b. \<forall>x \<in> set (segmentsInRange v a b). state x = pending)"
| "fresh_event e = True"

text \<open>The moves a segment's state may make, staying put included.\<close>

fun allowed :: "segment_state \<Rightarrow> segment_state \<Rightarrow> bool" where
  "allowed pending pending = True"
| "allowed pending downloading = True"
| "allowed downloading downloading = True"
| "allowed downloading downloaded = True"
| "allowed downloading errored = True"
| "allowed downloaded downloaded = True"
| "allowed errored errored = True"
| "allowed a b = False"

text \<open>
  The segment a call of \<^verbatim>\<open>downloadNextSegment\<close> considers for download: the one at
  \<open>loadIndex\<close> while it is pending, the next one once the one at \<open>loadIndex\<close> has
  finished and is not the last.
\<close>

definition candidate :: "window \<Rightarrow> nat option" where
  "candidate w =
     (case loadIndex w of
        None \<Rightarrow> None
      | Some li \<Rightarrow>
          if length (segments w) \<le> li then None
          else if state (segments w ! li) = pending then Some li
          else if state (segments w ! li) = downloading then None
          else if li + 1 = length (segments w) then None
          else Some (li + 1))"

text \<open>
  A segment once its download has been started: the two writes of lines 206 and 209.
\<close>

definition begun :: "(segment \<Rightarrow> string) \<Rightarrow> segment \<Rightarrow> segment" where
  "begun rs seg = seg\<lparr>state := downloading, cachedUrl := Some (url rs seg)\<rparr>"

text \<open>
  The invariant of a run for the manifest loads: none is outstanding, or exactly one is and
  the flag is set.
\<close>

definition load_inv :: "config \<Rightarrow> bool" where
  "load_inv s = (inflight s = 0 \<or> (inflight s = 1 \<and> loadingManifest (ctrl s)))"

text \<open>
  The invariant of a run for the segments: a pending segment has never been requested; a
  segment that has left pending has been requested exactly once and lies at or before
  \<open>loadIndex\<close>; no request names a position beyond the list.
\<close>

definition window_inv :: "config \<Rightarrow> bool" where
  "window_inv s =
     ((\<forall>i < length (segments (win s)).
         (state (segments (win s) ! i) = pending \<longrightarrow> media_requests_for i (sent s) = 0)
         \<and> (state (segments (win s) ! i) \<noteq> pending \<longrightarrow>
               media_requests_for i (sent s) = 1
               \<and> (\<exists>li. loadIndex (win s) = Some li \<and> i \<le> li)))
      \<and> (\<forall>i \<ge> length (segments (win s)). media_requests_for i (sent s) = 0))"

text \<open>
  The buffered lookahead as the tick computes it (\<^verbatim>\<open>remaining\<close>): zero when
  nothing is buffered.
\<close>

definition lookahead :: "video \<Rightarrow> real" where
  "lookahead v = (case buffered v of [] \<Rightarrow> 0 | r # _ \<Rightarrow> snd r - currentTime v)"

section \<open>Concrete manifests, views and windows\<close>

text \<open>Small concrete inputs on which the functions above are evaluated.\<close>

definition live_manifest :: "real \<Rightarrow> real \<Rightarrow> real \<Rightarrow> manifest" where
  "live_manifest depth delay minBuffer =
     \<lparr> dynamic = True, minimumUpdatePeriod = None, minBufferTime = minBuffer,
       timeShiftBufferDepth = depth, suggestedPresentationDelay = delay \<rparr>"

definition live_view ::
  "real \<Rightarrow> segment \<Rightarrow> (real \<Rightarrow> real \<Rightarrow> segment list) \<Rightarrow> manifest \<Rightarrow> dynamic_view"
where
  "live_view edge seg inRange m =
     \<lparr> liveEdge = edge, segmentAtLiveEdge = Some seg, contentAtLiveEdge = None,
       segmentsInRange = inRange, view_manifest = m \<rparr>"

definition queued_window :: window where
  "queued_window =
     \<lparr> segments = [fresh_segment 96 4], playIndex = None, loadIndex = Some 0,
       nextRangeStart = Some 100 \<rparr>"

definition initialised_controller :: controller where
  "initialised_controller =
     \<lparr> cstate = sourcesInitialised, loadingManifest = False, manifestLoaded = Some 0 \<rparr>"

definition empty_video :: video where
  "empty_video = \<lparr> currentTime = 0, buffered = [], playing = False \<rparr>"

text \<open>
  A run of a live source: the first update queues the segments \<open>[96, 100)\<close> and
  \<open>[100, 104)\<close>; the first is requested, asked for again while in flight, reported
  done, and the second is requested.
\<close>

definition example_view :: dynamic_view where
  "example_view =
     live_view 104 (fresh_segment 100 4) (\<lambda>a b. [fresh_segment 96 4, fresh_segment 100 4])
       (live_manifest 30 0 30000)"

definition example_run :: "event list" where
  "example_run =
     [Updated example_view, DownloadNext (\<lambda>seg. True) None, DownloadNext (\<lambda>seg. True) None,
      SegmentDone 0 True, DownloadNext (\<lambda>seg. True) None]"


section \<open>Properties of AdaptationSet.nextIndex\<close>

lemma nextIndex_exact:
  "counter_value counter < exact_limit \<Longrightarrow>
     nextIndex counter = (counter_value counter + 1, Some (counter_value counter + 1))"
  by (simp add: nextIndex_def counter_value_def Let_def)

text \<open>At the limit the counter no longer moves: two calls return the same index.\<close>

lemma nextIndex_at_limit:
  "nextIndex (Some exact_limit) = (exact_limit, Some exact_limit)"
  by (simp add: nextIndex_def Let_def)

lemma AdaptationSet_setup_index:
  assumes "counter_value counter < exact_limit"
    and "AdaptationSet_setup counter m t reps = (counter', r)"
  shows "counter' = Some (counter_value counter + 1)"
    and "r = Inr a \<Longrightarrow> as_index a = counter_value counter + 1"
  using assms
  by (auto simp: AdaptationSet_setup_def nextIndex_exact split: if_splits list.splits)

lemma construct_all_Cons:
  assumes "AdaptationSet_setup counter m t reps = (counter', r)"
  shows "snd (construct_all counter ((m, t, reps) # rest)) = r # snd (construct_all counter' rest)"
    and "fst (construct_all counter ((m, t, reps) # rest)) = fst (construct_all counter' rest)"
  using assms by (simp_all add: split_beta)

lemma construct_all_length:
  "length (snd (construct_all counter inputs)) = length inputs"
proof (induction counter inputs rule: construct_all.induct)
  case (1 counter)
  show ?case by simp
next
  case (2 counter m t reps rest)
  obtain c' r where st: "AdaptationSet_setup counter m t reps = (c', r)"
    by (cases "AdaptationSet_setup counter m t reps")
  from "2.IH" [OF st [symmetric]] show ?case
    by (simp only: construct_all_Cons(1) [OF st] list.size length_Cons)
qed

lemma construct_all_counter:
  "counter_value counter + length inputs \<le> exact_limit \<Longrightarrow>
     counter_value (fst (construct_all counter inputs)) = counter_value counter + length inputs"
proof (induction counter inputs rule: construct_all.induct)
  case (1 counter)
  show ?case by simp
next
  case (2 counter m t reps rest)
  obtain c' r where st: "AdaptationSet_setup counter m t reps = (c', r)"
    by (cases "AdaptationSet_setup counter m t reps")
  from "2.prems" have lt: "counter_value counter < exact_limit" by simp
  from AdaptationSet_setup_index(1) [OF lt st]
  have c': "counter_value c' = counter_value counter + 1" by (simp add: counter_value_def)
  with "2.prems" have "counter_value c' + length rest \<le> exact_limit" by simp
  from "2.IH" [OF st [symmetric] this] c' show ?case
    by (simp add: st split_beta)
qed

lemma construct_all_nth:
  "counter_value counter + length inputs \<le> exact_limit \<Longrightarrow> k < length inputs \<Longrightarrow>
     snd (construct_all counter inputs) ! k = Inr a \<Longrightarrow>
     as_index a = counter_value counter + k + 1"
proof (induction counter inputs arbitrary: k rule: construct_all.induct)
  case (1 counter)
  then show ?case by simp
next
  case (2 counter m t reps rest)
  obtain c' r where st: "AdaptationSet_setup counter m t reps = (c', r)"
    by (cases "AdaptationSet_setup counter m t reps")
  from "2.prems"(1) have lt: "counter_value counter < exact_limit" by simp
  from AdaptationSet_setup_index(1) [OF lt st]
  have c': "counter_value c' = counter_value counter + 1" by (simp add: counter_value_def)
  show ?case
  proof (cases k)
    case 0
    with "2.prems"(3) have "r = Inr a" by (simp add: st split_beta)
    from AdaptationSet_setup_index(2) [OF lt st this] 0 show ?thesis by simp
  next
    case (Suc k')
    from "2.prems"(1) c' have b: "counter_value c' + length rest \<le> exact_limit" by simp
    from "2.prems"(2) Suc have k': "k' < length rest" by simp
    from "2.prems"(3) Suc have "snd (construct_all c' rest) ! k' = Inr a"
      by (simp add: st split_beta)
    from "2.IH" [OF st [symmetric] b k' this] c' Suc show ?thesis by simp
  qed
qed

lemma built_indices_above:
  "counter_value counter + length inputs \<le> exact_limit \<Longrightarrow>
     j \<in> set (built_indices (snd (construct_all counter inputs))) \<Longrightarrow>
     counter_value counter < j"
proof (induction counter inputs rule: construct_all.induct)
  case (1 counter)
  then show ?case by simp
next
  case (2 counter m t reps rest)
  obtain c' r where st: "AdaptationSet_setup counter m t reps = (c', r)"
    by (cases "AdaptationSet_setup counter m t reps")
  from "2.prems"(1) have lt: "counter_value counter < exact_limit" by simp
  from AdaptationSet_setup_index(1) [OF lt st]
  have c': "counter_value c' = counter_value counter + 1" by (simp add: counter_value_def)
  from "2.prems"(1) c' have b: "counter_value c' + length rest \<le> exact_limit" by simp
  from "2.prems"(2)
  have "(\<exists>a. r = Inr a \<and> j = as_index a) \<or> j \<in> set (built_indices (snd (construct_all c' rest)))"
    by (cases r) (auto simp: st split_beta)
  then show ?case
  proof
    assume "\<exists>a. r = Inr a \<and> j = as_index a"
    then obtain a where "r = Inr a" "j = as_index a" by blast
    with AdaptationSet_setup_index(2) [OF lt st] show ?thesis by simp
  next
    assume "j \<in> set (built_indices (snd (construct_all c' rest)))"
    from "2.IH" [OF st [symmetric] b this] c' show ?thesis by simp
  qed
qed

lemma built_indices_increasing:
  "counter_value counter + length inputs \<le> exact_limit \<Longrightarrow>
     sorted_wrt (<) (built_indices (snd (construct_all counter inputs)))"
proof (induction counter inputs rule: construct_all.induct)
  case (1 counter)
  show ?case by simp
next
  case (2 counter m t reps rest)
  obtain c' r where st: "AdaptationSet_setup counter m t reps = (c', r)"
    by (cases "AdaptationSet_setup counter m t reps")
  from "2.prems" have lt: "counter_value counter < exact_limit" by simp
  from AdaptationSet_setup_index(1) [OF lt st]
  have c': "counter_value c' = counter_value counter + 1" by (simp add: counter_value_def)
  from "2.prems" c' have b: "counter_value c' + length rest \<le> exact_limit" by simp
  have tail: "sorted_wrt (<) (built_indices (snd (construct_all c' rest)))"
    by (rule "2.IH" [OF st [symmetric] b])
  show ?case
  proof (cases r)
    case (Inl e)
    with tail show ?thesis by (simp add: st split_beta)
  next
    case (Inr a)
    from AdaptationSet_setup_index(2) [OF lt st Inr]
    have ia: "as_index a = counter_value counter + 1" .
    have "\<forall>j \<in> set (built_indices (snd (construct_all c' rest))). as_index a < j"
      using built_indices_above [OF b] c' ia by auto
    with tail Inr show ?thesis by (simp add: st split_beta)
  qed
qed

text \<open>
  Claim C8. Take any sequence of AdaptationSet constructions that keeps the shared counter
  within the range where a JavaScript number counts exactly (the counter's value plus the
  number of constructions does not pass \<open>2 ^ 53\<close>), whatever the counter holds at the start
  (unset or advanced by earlier documents). Every constructor runs and yields one result;
  the counter ends advanced by the number of constructions, failed ones included, and is
  never reset; the set built by the \<open>k\<close>-th constructor carries the index
  \<open>counter + k + 1\<close>; so the indices of the sets built are strictly increasing in
  construction order and pairwise distinct.
\<close>

theorem adaptation_set_indices_unique_increasing:
  assumes "counter_value counter + length inputs \<le> exact_limit"
  shows "length (snd (construct_all counter inputs)) = length inputs
    \<and> counter_value (fst (construct_all counter inputs)) = counter_value counter + length inputs
    \<and> (\<forall>k a. k < length inputs \<and> snd (construct_all counter inputs) ! k = Inr a
          \<longrightarrow> as_index a = counter_value counter + k + 1)
    \<and> sorted_wrt (<) (built_indices (snd (construct_all counter inputs)))
    \<and> distinct (built_indices (snd (construct_all counter inputs)))"
proof -
  have inc: "sorted_wrt (<) (built_indices (snd (construct_all counter inputs)))"
    using assms by (rule built_indices_increasing)
  then have dis: "distinct (built_indices (snd (construct_all counter inputs)))"
    by (simp add: strict_sorted_iff)
  have nth: "\<forall>k a. k < length inputs \<and> snd (construct_all counter inputs) ! k = Inr a
          \<longrightarrow> as_index a = counter_value counter + k + 1"
    using construct_all_nth [OF assms] by blast
  from construct_all_length [of counter inputs] construct_all_counter [OF assms] nth inc dis
  show ?thesis by (intro conjI)
qed

lemma example_inputs_eval:
  "construct_all (Some 7) example_inputs =
     (Some 10,
      [Inr \<lparr> as_index = 8, as_mimeType = Some ''video/mp4'', as_segmentTemplate = None,
             representations = [] \<rparr>,
       Inl TypeError,
       Inr \<lparr> as_index = 10, as_mimeType = Some ''audio/mp4'', as_segmentTemplate = None,
             representations =
               [\<lparr> rep_id = Some ''a1'', bandwidth = Some 64000, mimeType = Some ''audio/mp4'',
                   codecs = None \<rparr>] \<rparr>])"
  by (simp add: example_inputs_def AdaptationSet_setup_def nextIndex_def exact_limit_def Let_def)

theorem adaptation_set_indices_unique_increasing_witness:
  "counter_value (Some 7) + length example_inputs \<le> exact_limit
   \<and> built_indices (snd (construct_all (Some 7) example_inputs)) = [8, 10]
   \<and> length (snd (construct_all (Some 7) example_inputs)) = 3
   \<and> counter_value (fst (construct_all (Some 7) example_inputs)) = 10
   \<and> sorted_wrt (<) (built_indices (snd (construct_all (Some 7) example_inputs)))
   \<and> distinct (built_indices (snd (construct_all (Some 7) example_inputs)))"
proof -
  have h: "counter_value (Some 7) + length example_inputs \<le> exact_limit"
    by (simp add: counter_value_def example_inputs_def exact_limit_def)
  have b: "built_indices (snd (construct_all (Some 7) example_inputs)) = [8, 10]"
    unfolding example_inputs_eval by simp
  have n: "counter_value (Some 7) + length example_inputs = 10"
    by (simp add: counter_value_def example_inputs_def)
  have l: "length example_inputs = 3"
    by (simp add: example_inputs_def)
  note t = adaptation_set_indices_unique_increasing [OF h]
  from t l have c1: "length (snd (construct_all (Some 7) example_inputs)) = 3" by simp
  from t n have c2: "counter_value (fst (construct_all (Some 7) example_inputs)) = 10" by simp
  from t have c3: "sorted_wrt (<) (built_indices (snd (construct_all (Some 7) example_inputs)))"
    by (elim conjE)
  from t have c4: "distinct (built_indices (snd (construct_all (Some 7) example_inputs)))"
    by (elim conjE)
  from h b c1 c2 c3 c4 show ?thesis by (intro conjI)
qed

section \<open>Properties of SegmentTemplate.setup\<close>

lemma inheritFrom_None [simp]: "inheritFrom None t = t"
  by (simp add: inheritFrom_def)

lemma setup_duration:
  "duration (SegmentTemplate_setup t a p) =
     spec_precedence (duration t) (attr_of duration a) (attr_of duration p)"
  by (simp add: SegmentTemplate_setup_def Let_def inheritFrom_def inherit_value_def
      spec_precedence_def attr_of_def default_timescale_def default_startNumber_def
      default_presentationTimeOffset_def split: option.splits)

lemma setup_media:
  "media (SegmentTemplate_setup t a p) =
     spec_precedence (media t) (attr_of media a) (attr_of media p)"
  by (simp add: SegmentTemplate_setup_def Let_def inheritFrom_def inherit_value_def
      spec_precedence_def attr_of_def default_timescale_def default_startNumber_def
      default_presentationTimeOffset_def split: option.splits)

lemma setup_index:
  "index (SegmentTemplate_setup t a p) =
     spec_precedence (index t) (attr_of index a) (attr_of index p)"
  by (simp add: SegmentTemplate_setup_def Let_def inheritFrom_def inherit_value_def
      spec_precedence_def attr_of_def default_timescale_def default_startNumber_def
      default_presentationTimeOffset_def split: option.splits)

lemma setup_initialization:
  "initialization (SegmentTemplate_setup t a p) =
     spec_precedence (initialization t) (attr_of initialization a) (attr_of initialization p)"
  by (simp add: SegmentTemplate_setup_def Let_def inheritFrom_def inherit_value_def
      spec_precedence_def attr_of_def default_timescale_def default_startNumber_def
      default_presentationTimeOffset_def split: option.splits)

lemma setup_bitstreamSwitching:
  "bitstreamSwitching (SegmentTemplate_setup t a p) =
     spec_precedence (bitstreamSwitching t) (attr_of bitstreamSwitching a)
       (attr_of bitstreamSwitching p)"
  by (simp add: SegmentTemplate_setup_def Let_def inheritFrom_def inherit_value_def
      spec_precedence_def attr_of_def default_timescale_def default_startNumber_def
      default_presentationTimeOffset_def split: option.splits)

text \<open>
  The three attributes with a built-in default never see an ancestor: the default is
  written before the inheritance runs, so the inheritance finds them present.
\<close>

lemma setup_timescale:
  "timescale (SegmentTemplate_setup t a p) =
     Some (case timescale t of None \<Rightarrow> 1 | Some v \<Rightarrow> v)"
  by (simp add: SegmentTemplate_setup_def Let_def inheritFrom_def inherit_value_def
      default_timescale_def default_startNumber_def
      default_presentationTimeOffset_def split: option.splits)

lemma setup_startNumber:
  "startNumber (SegmentTemplate_setup t a p) =
     Some (case startNumber t of None \<Rightarrow> 1 | Some v \<Rightarrow> v)"
  by (simp add: SegmentTemplate_setup_def Let_def inheritFrom_def inherit_value_def
      default_timescale_def default_startNumber_def
      default_presentationTimeOffset_def split: option.splits)

lemma setup_presentationTimeOffset:
  "presentationTimeOffset (SegmentTemplate_setup t a p) =
     Some (case presentationTimeOffset t of None \<Rightarrow> 0 | Some v \<Rightarrow> v)"
  by (simp add: SegmentTemplate_setup_def Let_def inheritFrom_def inherit_value_def
      default_timescale_def default_startNumber_def
      default_presentationTimeOffset_def split: option.splits)

text \<open>
  Claim C2, evaluated where it fails. A Representation-level template that declares only
  \<open>media\<close>, under an AdaptationSet-level template declaring \<open>startNumber = 5\<close>,
  \<open>timescale = 90000\<close> and \<open>presentationTimeOffset = 7\<close>: the precedence of the
  specification gives 5, 90000 and 7, the setup gives the built-in 1, 1 and 0. The
  attributes without a built-in default (\<open>duration\<close>, \<open>initialization\<close>) are inherited
  as the specification says.
\<close>

theorem segment_template_defaults_shadow_ancestor:
  "timescale (SegmentTemplate_setup representation_level_template
       (Some adaptation_set_level_template) None) = Some 1
   \<and> spec_with_default 1 (timescale representation_level_template)
       (timescale adaptation_set_level_template) None = Some 90000
   \<and> startNumber (SegmentTemplate_setup representation_level_template
       (Some adaptation_set_level_template) None) = Some 1
   \<and> spec_with_default 1 (startNumber representation_level_template)
       (startNumber adaptation_set_level_template) None = Some 5
   \<and> presentationTimeOffset (SegmentTemplate_setup representation_level_template
       (Some adaptation_set_level_template) None) = Some 0
   \<and> spec_with_default 0 (presentationTimeOffset representation_level_template)
       (presentationTimeOffset adaptation_set_level_template) None = Some 7
   \<and> duration (SegmentTemplate_setup representation_level_template
       (Some adaptation_set_level_template) None) = Some 180000
   \<and> initialization (SegmentTemplate_setup representation_level_template
       (Some adaptation_set_level_template) None) = Some ''init.mp4''"
  by (simp add: SegmentTemplate_setup_def Let_def inheritFrom_def inherit_value_def
      default_timescale_def default_startNumber_def default_presentationTimeOffset_def
      spec_with_default_def spec_precedence_def
      representation_level_template_def adaptation_set_level_template_def)

section \<open>Properties of Representation.setup and AdaptationSet.setup\<close>

lemma setup_template_own:
  "Representation_setup_template clone (Some t) a p = Inr t"
  by (simp add: Representation_setup_template_def)

lemma setup_template_missing:
  "Representation_setup_template clone None a p =
     (case template_of a of
        Some d \<Rightarrow> Inr (clone d)
      | None \<Rightarrow>
          (case template_of p of
             Some d \<Rightarrow> Inr (clone d)
           | None \<Rightarrow>
               Inl (Thrown ''Representation must currently have a SegmentTemplate or one must appear in ancestry'')))"
  by (cases a; cases p)
     (auto simp: Representation_setup_template_def template_of_def Let_def split: option.splits)

text \<open>
  Claim C3. A Representation without a template of its own gets the clone of the
  AdaptationSet's template when the AdaptationSet has one, otherwise the clone of the
  Period's; the setup raises (the only error of this step) exactly when the Representation,
  its AdaptationSet and its Period all lack a template. A Representation with its own
  template keeps it.
\<close>

theorem representation_template_from_nearest_ancestor:
  "Representation_setup_template clone None a p =
     (case template_of a of
        Some d \<Rightarrow> Inr (clone d)
      | None \<Rightarrow>
          (case template_of p of
             Some d \<Rightarrow> Inr (clone d)
           | None \<Rightarrow>
               Inl (Thrown ''Representation must currently have a SegmentTemplate or one must appear in ancestry'')))
   \<and> Representation_setup_template clone (Some t) a p = Inr t
   \<and> (isl (Representation_setup_template clone own a p)
        = (own = None \<and> template_of a = None \<and> template_of p = None))"
proof -
  have "isl (Representation_setup_template clone own a p)
        = (own = None \<and> template_of a = None \<and> template_of p = None)"
  proof (cases own)
    case None
    then show ?thesis
      by (simp add: setup_template_missing split: option.splits)
  next
    case (Some t')
    then show ?thesis by (simp add: setup_template_own)
  qed
  then show ?thesis
    by (simp only: setup_template_missing setup_template_own simp_thms)
qed

text \<open>
  Claim C10. When the document gives the AdaptationSet no mimeType, the setup reads
  \<^verbatim>\<open>this.representations[0].mimeType\<close>: with no Representation the read fails with
  a TypeError (the index has been drawn from the counter all the same); with at least one,
  the set takes the first Representation's mimeType, present or not. A declared mimeType
  is kept and the Representations are not consulted.
\<close>

theorem adaptation_set_mimeType_needs_representation:
  "snd (AdaptationSet_setup counter None template []) = Inl TypeError
   \<and> fst (AdaptationSet_setup counter None template []) = snd (nextIndex counter)
   \<and> snd (AdaptationSet_setup counter None template (r # rs)) =
       Inr \<lparr> as_index = fst (nextIndex counter), as_mimeType = mimeType r,
             as_segmentTemplate = template, representations = r # rs \<rparr>
   \<and> snd (AdaptationSet_setup counter (Some m) template reps) =
       Inr \<lparr> as_index = fst (nextIndex counter), as_mimeType = Some m,
             as_segmentTemplate = template, representations = reps \<rparr>"
  by (simp add: AdaptationSet_setup_def split: prod.splits)

section \<open>Properties of SegmentWindow.updateDynamic\<close>

lemma firstRangeStart_eq:
  "firstRangeStart m a =
     max (max (a - (if suggestedPresentationDelay m \<noteq> 0 then suggestedPresentationDelay m
                    else timeShiftBufferDepth m / 2))
              (a - timeShiftBufferDepth m)) 0"
  by (simp add: firstRangeStart_def Let_def)

text \<open>
  What the first update guarantees: the start is never negative and never earlier than the
  anchor's start minus the timeshift depth. The lower bound is taken from the anchor, not
  from the live edge.
\<close>

lemma firstRangeStart_lower_bounds:
  "0 \<le> firstRangeStart m a \<and> a - timeShiftBufferDepth m \<le> firstRangeStart m a"
  by (simp add: firstRangeStart_eq)

lemma firstRangeStart_half_depth:
  "suggestedPresentationDelay m = 0 \<Longrightarrow> 0 \<le> timeShiftBufferDepth m \<Longrightarrow>
     timeShiftBufferDepth m / 2 \<le> a \<Longrightarrow>
     firstRangeStart m a = a - timeShiftBufferDepth m / 2"
  by (simp add: firstRangeStart_eq max_def)

lemma firstRangeStart_delay:
  "suggestedPresentationDelay m \<noteq> 0 \<Longrightarrow>
     suggestedPresentationDelay m \<le> timeShiftBufferDepth m \<Longrightarrow>
     suggestedPresentationDelay m \<le> a \<Longrightarrow>
     firstRangeStart m a = a - suggestedPresentationDelay m"
  by (simp add: firstRangeStart_eq max_def)

text \<open>
  Claim C1, evaluated where it fails, on a first update (\<open>nextRangeStart\<close> unset).
  First, depth 30 and delay 29 with the live edge at 100 inside the segment \<open>[98, 102)\<close>:
  the start is \<open>98 - 29 = 69\<close>, earlier than \<open>liveEdge - depth = 70\<close>, because the
  lower bound is computed from the anchor's start. Second, the scenario of the claim with
  the depth as the manifest holds it, 30000 milliseconds, against a live edge of 100
  seconds: the start is 0, not 85. With depth and times in one unit (depth 30) and the
  anchor starting at the live edge, the start is 85.
\<close>

theorem first_range_start_evaluated:
  "rangeStartOf (live_view 100 (fresh_segment 98 4) (\<lambda>a b. []) (live_manifest 30 29 30000))
       new_window = Inr 69
   \<and> (69::real) < 100 - 30
   \<and> rangeStartOf (live_view 100 (fresh_segment 100 4) (\<lambda>a b. []) (live_manifest 30000 0 30000))
       new_window = Inr 0
   \<and> rangeStartOf (live_view 100 (fresh_segment 100 4) (\<lambda>a b. []) (live_manifest 30 0 30000))
       new_window = Inr 85"
  by (simp add: rangeStartOf_def live_view_def new_window_def edgeSegment_def
      firstRangeStart_def live_manifest_def fresh_segment_def Let_def)

text \<open>
  Claim C6. When the range request \<open>[rangeStart, liveEdge)\<close> of a dynamic update yields
  no segment, the update returns the window as it was: segment list, \<open>nextRangeStart\<close>,
  \<open>loadIndex\<close> and \<open>playIndex\<close> unchanged.
\<close>

theorem update_dynamic_empty_range_noop:
  "rangeStartOf v w = Inr rangeStart \<Longrightarrow> segmentsInRange v rangeStart (liveEdge v) = [] \<Longrightarrow>
     updateDynamic v w = Inr w"
  by (simp add: updateDynamic_def Let_def)

theorem update_dynamic_empty_range_noop_witness:
  "rangeStartOf (live_view 104 (fresh_segment 100 4) (\<lambda>a b. []) (live_manifest 30 0 30000))
       queued_window = Inr 100
   \<and> segmentsInRange (live_view 104 (fresh_segment 100 4) (\<lambda>a b. []) (live_manifest 30 0 30000))
       100 (liveEdge (live_view 104 (fresh_segment 100 4) (\<lambda>a b. []) (live_manifest 30 0 30000))) = []
   \<and> updateDynamic (live_view 104 (fresh_segment 100 4) (\<lambda>a b. []) (live_manifest 30 0 30000))
       queued_window = Inr queued_window"
proof -
  let ?v = "live_view 104 (fresh_segment 100 4) (\<lambda>a b. []) (live_manifest 30 0 30000)"
  have r: "rangeStartOf ?v queued_window = Inr 100"
    by (simp add: rangeStartOf_def queued_window_def)
  have e: "segmentsInRange ?v 100 (liveEdge ?v) = []"
    by (simp add: live_view_def)
  from update_dynamic_empty_range_noop [OF r e] r e show ?thesis by simp
qed

text \<open>
  Claim C9. With segments already queued and a non-empty range result, the update raises
  exactly when nothing is left of the new segments after the boundary duplicate is
  dropped; in particular when the range yields the single segment that value-equals the
  last queued one, the read of \<^verbatim>\<open>newSegments[0].start\<close> fails with a TypeError.
\<close>

theorem update_dynamic_needs_surviving_segment:
  assumes "segments w \<noteq> []"
    and "rangeStartOf v w = Inr rangeStart"
    and "segmentsInRange v rangeStart (liveEdge v) \<noteq> []"
  shows "isl (updateDynamic v w)
           = (dropBoundaryDuplicate (last (segments w))
                (segmentsInRange v rangeStart (liveEdge v)) = [])
         \<and> (\<forall>x. segmentsInRange v rangeStart (liveEdge v) = [x] \<and> equal (last (segments w)) x
                \<longrightarrow> updateDynamic v w = Inl TypeError)"
  using assms
  by (auto simp: updateDynamic_def Let_def mergeSegments_def dropBoundaryDuplicate_def)

theorem update_dynamic_needs_surviving_segment_witness:
  "segments queued_window \<noteq> []
   \<and> rangeStartOf (live_view 104 (fresh_segment 100 4) (\<lambda>a b. [fresh_segment 96 4])
         (live_manifest 30 0 30000)) queued_window = Inr 100
   \<and> equal (last (segments queued_window)) (fresh_segment 96 4)
   \<and> updateDynamic (live_view 104 (fresh_segment 100 4) (\<lambda>a b. [fresh_segment 96 4])
         (live_manifest 30 0 30000)) queued_window = Inl TypeError"
proof -
  let ?v = "live_view 104 (fresh_segment 100 4) (\<lambda>a b. [fresh_segment 96 4])
              (live_manifest 30 0 30000)"
  have n: "segments queued_window \<noteq> []"
    by (simp add: queued_window_def)
  have r: "rangeStartOf ?v queued_window = Inr 100"
    by (simp add: rangeStartOf_def queued_window_def)
  have s: "segmentsInRange ?v 100 (liveEdge ?v) = [fresh_segment 96 4]"
    by (simp add: live_view_def)
  then have s': "segmentsInRange ?v 100 (liveEdge ?v) \<noteq> []" by simp
  have q: "equal (last (segments queued_window)) (fresh_segment 96 4)"
    by (simp add: queued_window_def equal_def)
  from update_dynamic_needs_surviving_segment [OF n r s'] s q
  have "updateDynamic ?v queued_window = Inl TypeError" by blast
  with n r q show ?thesis by simp
qed

section \<open>Properties of PresentationController.tick\<close>

lemma loadManifest_cstate: "cstate (fst (loadManifest u c)) = cstate c"
  by (simp add: loadManifest_def)

lemma tick_below_threshold:
  "lookahead v < 2 * (minBufferTime m / 1000) \<Longrightarrow>
     advanced (tick now u m sources c v) = sources
     \<and> cstate (controller_after (tick now u m sources c v)) = cstate c
     \<and> video_after (tick now u m sources c v) = v
     \<and> raised (tick now u m sources c v) = None"
  by (simp add: tick_def lookahead_def Let_def loadManifest_def split: prod.splits list.splits)

lemma tick_transition_iff:
  "cstate c = sourcesInitialised \<Longrightarrow>
     (cstate (controller_after (tick now u m sources c v)) = bufferAvailable)
       = (2 * (minBufferTime m / 1000) \<le> lookahead v)"
  by (auto simp: tick_def lookahead_def Let_def loadManifest_def setState_def
      split: prod.splits list.splits if_splits)

lemma tick_starts_playback:
  "cstate c = sourcesInitialised \<Longrightarrow> buffered v = r # rs \<Longrightarrow>
     2 * (minBufferTime m / 1000) \<le> snd r - currentTime v \<Longrightarrow>
     video_after (tick now u m sources c v) = v\<lparr>currentTime := fst r, playing := True\<rparr>
     \<and> cstate (controller_after (tick now u m sources c v)) = bufferAvailable
     \<and> advanced (tick now u m sources c v) = []
     \<and> raised (tick now u m sources c v) = None"
  by (auto simp: tick_def Let_def loadManifest_def setState_def
      split: prod.splits list.splits if_splits)

text \<open>
  Claim C7, evaluated where it fails. A manifest declaring a minBufferTime of zero, in state
  \<open>sourcesInitialised\<close>, before anything is buffered: the lookahead the tick computes is 0,
  which is not below the threshold 0, so the tick moves to \<open>bufferAvailable\<close> and then
  reads the start of a buffered range that does not exist. The state has changed, the
  playback position is not set, playback has not begun, and no download was advanced.
\<close>

theorem tick_zero_min_buffer_evaluated:
  "cstate (controller_after
       (tick 100 ''m.mpd'' (live_manifest 30 0 0) [''video'', ''audio'']
          initialised_controller empty_video)) = bufferAvailable
   \<and> raised (tick 100 ''m.mpd'' (live_manifest 30 0 0) [''video'', ''audio'']
          initialised_controller empty_video) = Some IndexSizeError
   \<and> video_after (tick 100 ''m.mpd'' (live_manifest 30 0 0) [''video'', ''audio'']
          initialised_controller empty_video) = empty_video
   \<and> playing empty_video = False
   \<and> advanced (tick 100 ''m.mpd'' (live_manifest 30 0 0) [''video'', ''audio'']
          initialised_controller empty_video) = []"
  by (simp add: tick_def live_manifest_def initialised_controller_def empty_video_def
      setState_def Let_def)

section \<open>Manifest loads in a run\<close>

lemma startDownload_ctrl:
  "startDownload av rs w c i = (w', c', reqs) \<Longrightarrow> c' = c \<and> mpd_requests reqs = 0"
  by (auto simp: startDownload_def Let_def mpd_requests_def split: if_splits)

lemma loadManifest_cases:
  "loadManifest u c = (c', reqs) \<Longrightarrow>
     (loadingManifest c \<and> c' = c \<and> reqs = [])
     \<or> (\<not> loadingManifest c \<and> c' = c\<lparr>loadingManifest := True\<rparr> \<and> reqs = [GetMPD u])"
  by (auto simp: loadManifest_def split: if_splits)

lemma downloadNextSegment_ctrl:
  assumes "downloadNextSegment av rs d u w c = Inr (w', c', reqs)"
  shows "(c' = c \<and> mpd_requests reqs = 0)
     \<or> (\<not> loadingManifest c \<and> c' = c\<lparr>loadingManifest := True\<rparr> \<and> reqs = [GetMPD u])"
proof (cases "loadIndex w")
  case None
  with assms show ?thesis by (simp add: downloadNextSegment_def mpd_requests_def)
next
  case (Some li)
  with assms show ?thesis
    by (auto simp: downloadNextSegment_def Let_def mpd_requests_def loadManifest_def
        split: if_splits dest: startDownload_ctrl)
qed

lemma tick_ctrl:
  "(loadingManifest (controller_after (tick now u m srcs c v)) = loadingManifest c
      \<and> sent_requests (tick now u m srcs c v) = [])
   \<or> (\<not> loadingManifest c \<and> loadingManifest (controller_after (tick now u m srcs c v))
      \<and> sent_requests (tick now u m srcs c v) = [GetMPD u])"
  by (auto simp: tick_def Let_def loadManifest_def setState_def split: prod.splits list.splits if_splits)

lemma step_download_load_inv:
  "load_inv s \<Longrightarrow> load_inv (step_download rs u av d s)"
  by (auto simp: step_download_def load_inv_def issue_def mpd_requests_def
      split: sum.splits dest!: downloadNextSegment_ctrl)

lemma step_download_flag:
  "loadingManifest (ctrl s) \<Longrightarrow> loadingManifest (ctrl (step_download rs u av d s))"
  by (auto simp: step_download_def issue_def split: sum.splits dest!: downloadNextSegment_ctrl)

lemma step_load_inv: "load_inv s \<Longrightarrow> load_inv (step rs u e s)"
proof (cases e)
  case (Tick now m v av d)
  assume a: "load_inv s"
  let ?out = "tick now u m [()] (ctrl s) v"
  let ?s1 = "issue (sent_requests ?out) (s\<lparr>ctrl := controller_after ?out\<rparr>)"
  from a tick_ctrl [of now u m "[()]" "ctrl s" v] have "load_inv ?s1"
    by (auto simp: load_inv_def issue_def mpd_requests_def)
  then show ?thesis using Tick by (simp add: Let_def step_download_load_inv)
next
  case (DownloadNext av d)
  assume "load_inv s"
  then show ?thesis using DownloadNext by (simp add: step_download_load_inv)
qed (auto simp: load_inv_def issue_def mpd_requests_def loadManifest_def loadedManifest_def Let_def
      split: sum.splits)

lemma exec_load_inv: "load_inv s \<Longrightarrow> load_inv (exec rs u evs s)"
  by (induction evs arbitrary: s) (simp_all add: step_load_inv)

lemma step_keeps_flag:
  assumes "loadingManifest (ctrl s)" "\<not> loadingManifest (ctrl (step rs u e s))"
  shows "\<exists>now. e = ManifestDelivered now"
proof (cases e)
  case (Tick now m v av d)
  let ?out = "tick now u m [()] (ctrl s) v"
  let ?s1 = "issue (sent_requests ?out) (s\<lparr>ctrl := controller_after ?out\<rparr>)"
  from assms(1) tick_ctrl [of now u m "[()]" "ctrl s" v] have "loadingManifest (ctrl ?s1)"
    by (auto simp: issue_def)
  with step_download_flag [of ?s1 rs u av d] have "loadingManifest (ctrl (step rs u e s))"
    using Tick by (simp add: Let_def)
  with assms show ?thesis by simp
next
  case (DownloadNext av d)
  with assms step_download_flag [of s rs u av d] show ?thesis by simp
qed (use assms in \<open>auto simp: issue_def loadManifest_def split: sum.splits if_splits\<close>)

text \<open>
  Claim C5. In every state a run reaches from a new controller, at most one manifest load
  is outstanding, and while one is outstanding the flag is set; \<^verbatim>\<open>loadManifest\<close> with
  the flag set returns the controller unchanged and sends nothing; and whenever an event
  takes the flag from set to cleared, that event is the delivery of a loaded manifest.
\<close>

theorem one_manifest_load_in_flight:
  "inflight (exec rs u evs (initial_config w)) \<le> 1
   \<and> (inflight (exec rs u evs (initial_config w)) = 1
        \<longrightarrow> loadingManifest (ctrl (exec rs u evs (initial_config w))))
   \<and> (loadingManifest c \<longrightarrow> loadManifest u c = (c, []))
   \<and> (loadingManifest (ctrl s) \<and> \<not> loadingManifest (ctrl (step rs u e s))
        \<longrightarrow> (\<exists>now. e = ManifestDelivered now))"
proof -
  have "load_inv (initial_config w)"
    by (simp add: load_inv_def initial_config_def)
  then have "load_inv (exec rs u evs (initial_config w))"
    by (rule exec_load_inv)
  then have "inflight (exec rs u evs (initial_config w)) \<le> 1"
    and "inflight (exec rs u evs (initial_config w)) = 1
        \<longrightarrow> loadingManifest (ctrl (exec rs u evs (initial_config w)))"
    by (auto simp: load_inv_def)
  moreover have "loadingManifest c \<longrightarrow> loadManifest u c = (c, [])"
    by (simp add: loadManifest_def)
  moreover have "loadingManifest (ctrl s) \<and> \<not> loadingManifest (ctrl (step rs u e s))
        \<longrightarrow> (\<exists>now. e = ManifestDelivered now)"
    using step_keeps_flag [of s rs u e] by blast
  ultimately show ?thesis by blast
qed

lemma two_loads_eval:
  "exec (\<lambda>seg. ''seg.m4s'') ''m.mpd'' [LoadManifest, LoadManifest] (initial_config new_window) =
     \<lparr> win = new_window,
       ctrl = \<lparr> cstate = uninitialised, loadingManifest = True, manifestLoaded = None \<rparr>,
       sent = [GetMPD ''m.mpd''], inflight = 1 \<rparr>"
  by (simp add: initial_config_def new_controller_def loadManifest_def issue_def mpd_requests_def)

theorem one_manifest_load_in_flight_witness:
  "inflight (exec (\<lambda>seg. ''seg.m4s'') ''m.mpd'' [LoadManifest, LoadManifest]
       (initial_config new_window)) = 1
   \<and> sent (exec (\<lambda>seg. ''seg.m4s'') ''m.mpd'' [LoadManifest, LoadManifest]
       (initial_config new_window)) = [GetMPD ''m.mpd'']
   \<and> loadingManifest (ctrl (exec (\<lambda>seg. ''seg.m4s'') ''m.mpd'' [LoadManifest, LoadManifest]
       (initial_config new_window)))
   \<and> loadManifest ''m.mpd'' (ctrl (exec (\<lambda>seg. ''seg.m4s'') ''m.mpd'' [LoadManifest, LoadManifest]
       (initial_config new_window)))
       = (ctrl (exec (\<lambda>seg. ''seg.m4s'') ''m.mpd'' [LoadManifest, LoadManifest]
            (initial_config new_window)), [])
   \<and> \<not> loadingManifest (ctrl (step (\<lambda>seg. ''seg.m4s'') ''m.mpd'' (ManifestDelivered 5)
       (exec (\<lambda>seg. ''seg.m4s'') ''m.mpd'' [LoadManifest, LoadManifest]
          (initial_config new_window))))
   \<and> (\<exists>now. ManifestDelivered 5 = ManifestDelivered now)"
proof -
  let ?s = "exec (\<lambda>seg. ''seg.m4s'') ''m.mpd'' [LoadManifest, LoadManifest]
              (initial_config new_window)"
  have n: "inflight ?s = 1" and q: "sent ?s = [GetMPD ''m.mpd'']"
    by (simp_all only: two_loads_eval config.simps)
  have d: "\<not> loadingManifest (ctrl (step (\<lambda>seg. ''seg.m4s'') ''m.mpd'' (ManifestDelivered 5) ?s))"
    unfolding two_loads_eval by (simp add: loadedManifest_def setState_def)
  note t = one_manifest_load_in_flight [of "\<lambda>seg. ''seg.m4s''" "''m.mpd''"
      "[LoadManifest, LoadManifest]" new_window "ctrl ?s" ?s "ManifestDelivered 5"]
  from t n have f: "loadingManifest (ctrl ?s)" by blast
  with t have l: "loadManifest ''m.mpd'' (ctrl ?s) = (ctrl ?s, [])" by blast
  from t f d have e: "\<exists>now. ManifestDelivered 5 = ManifestDelivered now" by blast
  from n q f l d e show ?thesis by blast
qed

section \<open>Segment downloads in a run\<close>

lemma media_requests_for_append [simp]:
  "media_requests_for i (xs @ ys) = media_requests_for i xs + media_requests_for i ys"
  by (simp add: media_requests_for_def)

lemma media_requests_for_simps [simp]:
  "media_requests_for i [] = 0"
  "media_requests_for i [GetMPD u] = 0"
  "media_requests_for i [GetMedia u j] = (if i = j then 1 else 0)"
  by (simp_all add: media_requests_for_def)

lemma state_begun [simp]: "state (begun rs seg) = downloading"
  by (simp add: begun_def)

lemma startDownload_eq:
  "startDownload av rs w c i =
     (if av (segments w ! i)
      then (w\<lparr>segments := (segments w)[i := begun rs (segments w ! i)]\<rparr>, c,
            [GetMedia (url rs (segments w ! i)) i])
      else (w, c, []))"
  by (simp add: startDownload_def Let_def begun_def)

lemma downloadNextSegment_cases:
  assumes "downloadNextSegment av rs d u w c = Inr (w', c', reqs)"
  obtains
    (idle) "w' = w" "\<forall>i. media_requests_for i reqs = 0"
  | (start) li where "loadIndex w = Some li" "li < length (segments w)"
      "state (segments w ! li) = pending" "av (segments w ! li)"
      "w' = w\<lparr>segments := (segments w)[li := begun rs (segments w ! li)]\<rparr>"
      "reqs = [GetMedia (url rs (segments w ! li)) li]" "c' = c"
  | (skip) li where "loadIndex w = Some li" "li + 1 < length (segments w)"
      "state (segments w ! li) \<noteq> pending"
      "w' = w\<lparr>loadIndex := Some (li + 1)\<rparr>" "reqs = []" "c' = c"
  | (advance) li where "loadIndex w = Some li" "li + 1 < length (segments w)"
      "state (segments w ! li) \<noteq> pending" "av (segments w ! (li + 1))"
      "w' = w\<lparr>loadIndex := Some (li + 1),
               segments := (segments w)[li + 1 := begun rs (segments w ! (li + 1))]\<rparr>"
      "reqs = [GetMedia (url rs (segments w ! (li + 1))) (li + 1)]" "c' = c"
proof (cases "loadIndex w")
  case None
  with assms have "w' = w" "reqs = []" by (simp_all add: downloadNextSegment_def)
  then show ?thesis using idle by simp
next
  case (Some li)
  show ?thesis
  proof (cases "length (segments w) \<le> li")
    case True
    with assms Some show ?thesis by (simp add: downloadNextSegment_def)
  next
    case False
    then have lt: "li < length (segments w)" by simp
    show ?thesis
    proof (cases "state (segments w ! li)")
      case pending
      with assms Some lt
      have r: "startDownload av rs w c li = (w', c', reqs)"
        by (simp add: downloadNextSegment_def Let_def)
      show ?thesis
      proof (cases "av (segments w ! li)")
        case True
        with r show ?thesis using start [of li] Some lt pending
          by (simp add: startDownload_eq)
      next
        case False
        with r show ?thesis using idle by (simp add: startDownload_eq)
      qed
    next
      case downloading
      with assms Some lt have "w' = w" "reqs = []"
        by (simp_all add: downloadNextSegment_def Let_def)
      then show ?thesis using idle by simp
    next
      case downloaded
      show ?thesis
      proof (cases "li + 1 = length (segments w)")
        case True
        with assms Some lt downloaded have "w' = w \<and> (reqs = [] \<or> reqs = [GetMPD u])"
          by (auto simp: downloadNextSegment_def Let_def loadManifest_def split: if_splits)
        then show ?thesis using idle by auto
      next
        case False
        with lt have lt': "li + 1 < length (segments w)" by simp
        from assms Some lt downloaded False
        have r: "startDownload av rs (w\<lparr>loadIndex := Some (li + 1)\<rparr>) c (li + 1) = (w', c', reqs)"
          by (simp add: downloadNextSegment_def Let_def)
        show ?thesis
        proof (cases "av (segments w ! (li + 1))")
          case True
          with r show ?thesis using advance [of li] Some lt' downloaded
            by (simp add: startDownload_eq)
        next
          case False
          with r show ?thesis using skip [of li] Some lt' downloaded
            by (simp add: startDownload_eq)
        qed
      qed
    next
      case errored
      show ?thesis
      proof (cases "li + 1 = length (segments w)")
        case True
        with assms Some lt errored have "w' = w \<and> (reqs = [] \<or> reqs = [GetMPD u])"
          by (auto simp: downloadNextSegment_def Let_def loadManifest_def split: if_splits)
        then show ?thesis using idle by auto
      next
        case False
        with lt have lt': "li + 1 < length (segments w)" by simp
        from assms Some lt errored False
        have r: "startDownload av rs (w\<lparr>loadIndex := Some (li + 1)\<rparr>) c (li + 1) = (w', c', reqs)"
          by (simp add: downloadNextSegment_def Let_def)
        show ?thesis
        proof (cases "av (segments w ! (li + 1))")
          case True
          with r show ?thesis using advance [of li] Some lt' errored
            by (simp add: startDownload_eq)
        next
          case False
          with r show ?thesis using skip [of li] Some lt' errored
            by (simp add: startDownload_eq)
        qed
      qed
    qed
  qed
qed

lemma win_issue [simp]: "win (issue reqs s) = win s"
  and sent_issue [simp]: "sent (issue reqs s) = sent s @ reqs"
  and ctrl_issue [simp]: "ctrl (issue reqs s) = ctrl s"
  by (simp_all add: issue_def)

lemma window_invI:
  assumes "\<And>i. i < length (segments (win s)) \<Longrightarrow> state (segments (win s) ! i) = pending \<Longrightarrow>
             media_requests_for i (sent s) = 0"
    and "\<And>i. i < length (segments (win s)) \<Longrightarrow> state (segments (win s) ! i) \<noteq> pending \<Longrightarrow>
             media_requests_for i (sent s) = 1 \<and> (\<exists>li. loadIndex (win s) = Some li \<and> i \<le> li)"
    and "\<And>i. length (segments (win s)) \<le> i \<Longrightarrow> media_requests_for i (sent s) = 0"
  shows "window_inv s"
  using assms by (simp add: window_inv_def)

lemma window_inv_pending:
  "window_inv s \<Longrightarrow> i < length (segments (win s)) \<Longrightarrow> state (segments (win s) ! i) = pending \<Longrightarrow>
     media_requests_for i (sent s) = 0"
  by (simp add: window_inv_def)

lemma window_inv_started:
  "window_inv s \<Longrightarrow> i < length (segments (win s)) \<Longrightarrow> state (segments (win s) ! i) \<noteq> pending \<Longrightarrow>
     media_requests_for i (sent s) = 1 \<and> (\<exists>li. loadIndex (win s) = Some li \<and> i \<le> li)"
  by (simp add: window_inv_def)

lemma window_inv_beyond:
  "window_inv s \<Longrightarrow> length (segments (win s)) \<le> i \<Longrightarrow> media_requests_for i (sent s) = 0"
  by (simp add: window_inv_def)

lemma window_inv_start:
  assumes inv: "window_inv s"
    and li: "loadIndex (win s) = Some li" "i \<le> li"
    and i: "i < length (segments (win s))" "state (segments (win s) ! i) = pending"
    and w': "segments w' = (segments (win s))[i := begun rs (segments (win s) ! i)]"
            "loadIndex w' = Some li"
  shows "window_inv (issue [GetMedia x i] (s\<lparr>win := w', ctrl := c'\<rparr>))"
    (is "window_inv ?t")
proof (rule window_invI)
  fix j assume j: "j < length (segments (win ?t))"
    and p: "state (segments (win ?t) ! j) = pending"
  from j have jl: "j < length (segments (win s))" using w' by simp
  from p have ne: "j \<noteq> i" and p': "state (segments (win s) ! j) = pending"
    using w' jl i by (auto simp: nth_list_update split: if_splits)
  from window_inv_pending [OF inv jl p'] ne
  show "media_requests_for j (sent ?t) = 0" by simp
next
  fix j assume j: "j < length (segments (win ?t))"
    and np: "state (segments (win ?t) ! j) \<noteq> pending"
  from j have jl: "j < length (segments (win s))" using w' by simp
  show "media_requests_for j (sent ?t) = 1 \<and> (\<exists>l. loadIndex (win ?t) = Some l \<and> j \<le> l)"
  proof (cases "j = i")
    case True
    from window_inv_pending [OF inv i] True li w' show ?thesis by simp
  next
    case False
    with np w' jl have "state (segments (win s) ! j) \<noteq> pending" by simp
    from window_inv_started [OF inv jl this] False li w' show ?thesis by simp
  qed
next
  fix j assume "length (segments (win ?t)) \<le> j"
  then have jl: "length (segments (win s)) \<le> j" using w' by simp
  with i have "j \<noteq> i" by simp
  with window_inv_beyond [OF inv jl] show "media_requests_for j (sent ?t) = 0" by simp
qed

lemma window_inv_same_segments:
  assumes inv: "window_inv s"
    and seg: "segments w' = segments (win s)"
    and li: "\<And>l. loadIndex (win s) = Some l \<Longrightarrow> \<exists>l'. loadIndex w' = Some l' \<and> l \<le> l'"
    and rq: "\<forall>i. media_requests_for i reqs = 0"
  shows "window_inv (issue reqs (s\<lparr>win := w', ctrl := c'\<rparr>))"
    (is "window_inv ?t")
proof (rule window_invI)
  fix j assume j: "j < length (segments (win ?t))"
    and p: "state (segments (win ?t) ! j) = pending"
  from j have jl: "j < length (segments (win s))" using seg by simp
  from p seg have "state (segments (win s) ! j) = pending" by simp
  from window_inv_pending [OF inv jl this] rq
  show "media_requests_for j (sent ?t) = 0" by simp
next
  fix j assume j: "j < length (segments (win ?t))"
    and np: "state (segments (win ?t) ! j) \<noteq> pending"
  from j have jl: "j < length (segments (win s))" using seg by simp
  from np seg have "state (segments (win s) ! j) \<noteq> pending" by simp
  from window_inv_started [OF inv jl this]
  obtain l where a: "media_requests_for j (sent s) = 1"
    and l: "loadIndex (win s) = Some l" "j \<le> l" by blast
  from li [OF l(1)] l(2) obtain l' where "loadIndex w' = Some l'" "j \<le> l'" by auto
  with a rq
  show "media_requests_for j (sent ?t) = 1 \<and> (\<exists>l. loadIndex (win ?t) = Some l \<and> j \<le> l)"
    by simp
next
  fix j assume "length (segments (win ?t)) \<le> j"
  then have "length (segments (win s)) \<le> j" using seg by simp
  from window_inv_beyond [OF inv this] rq
  show "media_requests_for j (sent ?t) = 0" by simp
qed

lemma window_inv_next_pending:
  assumes "window_inv s" "loadIndex (win s) = Some li" "li + 1 < length (segments (win s))"
  shows "state (segments (win s) ! (li + 1)) = pending"
proof (rule ccontr)
  assume "state (segments (win s) ! (li + 1)) \<noteq> pending"
  with assms(1,3) have "\<exists>l. loadIndex (win s) = Some l \<and> li + 1 \<le> l"
    by (simp add: window_inv_def)
  with assms(2) show False by simp
qed

lemma step_download_inv:
  assumes inv: "window_inv s"
  shows "window_inv (step_download rs u av d s)"
proof (cases "downloadNextSegment av rs d u (win s) (ctrl s)")
  case (Inl e)
  with inv show ?thesis by (simp add: step_download_def)
next
  case (Inr r)
  obtain w' c' reqs where r: "r = (w', c', reqs)" by (cases r)
  with Inr have dn: "downloadNextSegment av rs d u (win s) (ctrl s) = Inr (w', c', reqs)" by simp
  have eq: "step_download rs u av d s = issue reqs (s\<lparr>win := w', ctrl := c'\<rparr>)"
    using dn by (simp add: step_download_def)
  from dn show ?thesis
  proof (cases rule: downloadNextSegment_cases)
    case idle
    with inv show ?thesis unfolding eq
      by (intro window_inv_same_segments) auto
  next
    case (start li)
    have "window_inv (issue [GetMedia (url rs (segments (win s) ! li)) li] (s\<lparr>win := w', ctrl := c'\<rparr>))"
      using inv start by (intro window_inv_start [where li = li]) auto
    then show ?thesis unfolding eq using start by simp
  next
    case (skip li)
    with inv show ?thesis unfolding eq
      by (intro window_inv_same_segments) auto
  next
    case (advance li)
    let ?s1 = "s\<lparr>win := (win s)\<lparr>loadIndex := Some (li + 1)\<rparr>\<rparr>"
    from advance inv have p: "state (segments (win s) ! (li + 1)) = pending"
      by (intro window_inv_next_pending) auto
    have "window_inv (issue [] (s\<lparr>win := (win s)\<lparr>loadIndex := Some (li + 1)\<rparr>, ctrl := ctrl s\<rparr>))"
      using inv advance by (intro window_inv_same_segments) auto
    then have inv1: "window_inv ?s1" by (simp add: issue_def mpd_requests_def)
    have "window_inv (issue [GetMedia (url rs (segments (win s) ! (li + 1))) (li + 1)]
                        (?s1\<lparr>win := w', ctrl := c'\<rparr>))"
      using inv1 advance p by (intro window_inv_start [where li = "li + 1"]) auto
    then show ?thesis unfolding eq using advance by simp
  qed
qed

lemma window_inv_cong:
  "win t = win s \<Longrightarrow> sent t = sent s \<Longrightarrow> window_inv t = window_inv s"
  by (simp add: window_inv_def)

lemma updateDynamic_cases:
  assumes "updateDynamic v w = Inr w'"
  obtains (same) "w' = w"
  | (appended) new a b where "new \<noteq> []" "set new \<subseteq> set (segmentsInRange v a b)"
      "segments w' = segments w @ new"
      "loadIndex w' = Some (case loadIndex w of None \<Rightarrow> 0 | Some i \<Rightarrow> i)"
proof (cases "rangeStartOf v w")
  case (Inl e)
  with assms show ?thesis by (simp add: updateDynamic_def)
next
  case (Inr r)
  let ?new = "segmentsInRange v r (liveEdge v)"
  show ?thesis
  proof (cases "?new = []")
    case True
    with assms Inr have "w' = w" by (simp add: updateDynamic_def Let_def)
    then show ?thesis by (rule same)
  next
    case False
    with assms Inr have m: "mergeSegments ?new w = Inr w'"
      by (simp add: updateDynamic_def Let_def)
    show ?thesis
    proof (cases "segments w = []")
      case True
      with m have "segments w' = segments w @ ?new"
        "loadIndex w' = Some (case loadIndex w of None \<Rightarrow> 0 | Some i \<Rightarrow> i)"
        by (auto simp: mergeSegments_def)
      with False show ?thesis using appended [of ?new r "liveEdge v"] by simp
    next
      case ne: False
      let ?kept = "dropBoundaryDuplicate (last (segments w)) ?new"
      from m ne have k: "?kept \<noteq> []" "segments w' = segments w @ ?kept"
        "loadIndex w' = Some (case loadIndex w of None \<Rightarrow> 0 | Some i \<Rightarrow> i)"
        by (auto simp: mergeSegments_def Let_def split: if_splits)
      have "set ?kept \<subseteq> set ?new"
        using False by (auto simp: dropBoundaryDuplicate_def dest: list.set_sel(2))
      with k show ?thesis using appended [of ?kept r "liveEdge v"] by simp
    qed
  qed
qed

lemma window_inv_append:
  assumes inv: "window_inv s"
    and new: "\<forall>x \<in> set new. state x = pending"
    and w': "segments w' = segments (win s) @ new"
       "loadIndex w' = Some (case loadIndex (win s) of None \<Rightarrow> 0 | Some i \<Rightarrow> i)"
  shows "window_inv (s\<lparr>win := w'\<rparr>)" (is "window_inv ?t")
proof (rule window_invI)
  fix j assume j: "j < length (segments (win ?t))"
    and p: "state (segments (win ?t) ! j) = pending"
  show "media_requests_for j (sent ?t) = 0"
  proof (cases "j < length (segments (win s))")
    case True
    with p w' have "state (segments (win s) ! j) = pending" by (simp add: nth_append)
    from window_inv_pending [OF inv True this] show ?thesis by simp
  next
    case False
    then have "length (segments (win s)) \<le> j" by simp
    from window_inv_beyond [OF inv this] show ?thesis by simp
  qed
next
  fix j assume j: "j < length (segments (win ?t))"
    and np: "state (segments (win ?t) ! j) \<noteq> pending"
  have jl: "j < length (segments (win s))"
  proof (rule ccontr)
    assume "\<not> j < length (segments (win s))"
    with j w' have "segments (win ?t) ! j \<in> set new"
      by (simp add: nth_append)
    with new np show False by simp
  qed
  with np w' have "state (segments (win s) ! j) \<noteq> pending" by (simp add: nth_append)
  from window_inv_started [OF inv jl this] w'
  show "media_requests_for j (sent ?t) = 1 \<and> (\<exists>l. loadIndex (win ?t) = Some l \<and> j \<le> l)"
    by auto
next
  fix j assume "length (segments (win ?t)) \<le> j"
  with w' have "length (segments (win s)) \<le> j" by simp
  from window_inv_beyond [OF inv this] show "media_requests_for j (sent ?t) = 0" by simp
qed

lemma step_updated_inv:
  assumes inv: "window_inv s" and fr: "fresh_event (Updated v)"
  shows "window_inv (step rs u (Updated v) s)"
proof (cases "updateDynamic v (win s)")
  case (Inl e)
  with inv show ?thesis by simp
next
  case (Inr w')
  then show ?thesis
  proof (cases rule: updateDynamic_cases)
    case same
    with inv Inr show ?thesis by simp
  next
    case (appended new a b)
    from appended(2) fr have "\<forall>x \<in> set new. state x = pending" by auto
    from window_inv_append [OF inv this appended(3,4)] Inr show ?thesis by simp
  qed
qed

lemma segmentDone_inv:
  assumes inv: "window_inv s"
  shows "window_inv (s\<lparr>win := segmentDone i ok (win s)\<rparr>)" (is "window_inv ?t")
proof (cases "i < length (segments (win s)) \<and> state (segments (win s) ! i) = downloading")
  case False
  then have "segmentDone i ok (win s) = win s" by (auto simp: segmentDone_def)
  then have "?t = s" by simp
  with inv show ?thesis by simp
next
  case True
  then have seg: "segments (segmentDone i ok (win s)) =
      (segments (win s))[i := (segments (win s) ! i)\<lparr>state := (if ok then downloaded else errored)\<rparr>]"
    and li: "loadIndex (segmentDone i ok (win s)) = loadIndex (win s)"
    by (simp_all add: segmentDone_def)
  have same: "\<And>j. j < length (segments (win s)) \<Longrightarrow>
      (state (segments (segmentDone i ok (win s)) ! j) = pending)
        = (state (segments (win s) ! j) = pending)"
    using True by (auto simp: seg nth_list_update)
  have len: "length (segments (segmentDone i ok (win s))) = length (segments (win s))"
    by (simp add: seg)
  show ?thesis
  proof (rule window_invI)
    fix j assume "j < length (segments (win ?t))" "state (segments (win ?t) ! j) = pending"
    with same len have "j < length (segments (win s))" "state (segments (win s) ! j) = pending"
      by simp_all
    from window_inv_pending [OF inv this] show "media_requests_for j (sent ?t) = 0" by simp
  next
    fix j assume "j < length (segments (win ?t))" "state (segments (win ?t) ! j) \<noteq> pending"
    with same len have "j < length (segments (win s))" "state (segments (win s) ! j) \<noteq> pending"
      by simp_all
    from window_inv_started [OF inv this] li
    show "media_requests_for j (sent ?t) = 1 \<and> (\<exists>l. loadIndex (win ?t) = Some l \<and> j \<le> l)"
      by simp
  next
    fix j assume "length (segments (win ?t)) \<le> j"
    with len have "length (segments (win s)) \<le> j" by simp
    from window_inv_beyond [OF inv this] show "media_requests_for j (sent ?t) = 0" by simp
  qed
qed

lemma tick_requests:
  "sent_requests (tick now u m srcs c v) = [] \<or> sent_requests (tick now u m srcs c v) = [GetMPD u]"
  by (auto simp: tick_def Let_def loadManifest_def split: prod.splits list.splits if_splits)

lemma step_inv:
  assumes inv: "window_inv s" and fr: "fresh_event e"
  shows "window_inv (step rs u e s)"
proof (cases e)
  case (Updated v)
  with inv fr show ?thesis by (simp only: step_updated_inv)
next
  case (DownloadNext av d)
  with inv show ?thesis by (simp add: step_download_inv)
next
  case (SegmentDone i ok)
  with inv show ?thesis by (simp add: segmentDone_inv)
next
  case LoadManifest
  obtain c' reqs where l: "loadManifest u (ctrl s) = (c', reqs)"
    by (cases "loadManifest u (ctrl s)")
  then have "\<forall>i. media_requests_for i reqs = 0"
    by (auto simp: loadManifest_def split: if_splits)
  with inv have "window_inv (issue reqs (s\<lparr>win := win s, ctrl := c'\<rparr>))"
    by (intro window_inv_same_segments) auto
  with l LoadManifest show ?thesis by simp
next
  case (ManifestDelivered now)
  have "window_inv (step rs u (ManifestDelivered now) s) = window_inv s"
    by (rule window_inv_cong) auto
  with inv ManifestDelivered show ?thesis by simp
next
  case ManifestFailed
  have "window_inv (step rs u ManifestFailed s) = window_inv s"
    by (rule window_inv_cong) auto
  with inv ManifestFailed show ?thesis by simp
next
  case (Tick now m v av d)
  let ?out = "tick now u m [()] (ctrl s) v"
  let ?s1 = "issue (sent_requests ?out) (s\<lparr>ctrl := controller_after ?out\<rparr>)"
  have "window_inv (issue (sent_requests ?out) (s\<lparr>win := win s, ctrl := controller_after ?out\<rparr>))"
    using inv tick_requests [of now u m "[()]" "ctrl s" v]
    by (intro window_inv_same_segments) auto
  then have "window_inv ?s1" by simp
  then show ?thesis using Tick by (simp add: Let_def step_download_inv)
qed

lemma exec_inv:
  "window_inv s \<Longrightarrow> \<forall>e \<in> set evs. fresh_event e \<Longrightarrow> window_inv (exec rs u evs s)"
  by (induction evs arbitrary: s) (simp_all add: step_inv)

lemma initial_inv:
  "\<forall>x \<in> set (segments w). state x = pending \<Longrightarrow> window_inv (initial_config w)"
  by (rule window_invI) (simp_all add: initial_config_def)

lemma allowed_refl [simp]: "allowed a a"
  by (cases a) simp_all

lemma step_download_allowed:
  assumes inv: "window_inv s" and i: "i < length (segments (win s))"
  shows "i < length (segments (win (step_download rs u av d s)))
         \<and> allowed (state (segments (win s) ! i))
                    (state (segments (win (step_download rs u av d s)) ! i))"
proof (cases "downloadNextSegment av rs d u (win s) (ctrl s)")
  case (Inl e)
  with i show ?thesis by (simp add: step_download_def)
next
  case (Inr r)
  obtain w' c' reqs where r: "r = (w', c', reqs)" by (cases r)
  with Inr have dn: "downloadNextSegment av rs d u (win s) (ctrl s) = Inr (w', c', reqs)" by simp
  have eq: "win (step_download rs u av d s) = w'"
    using dn by (simp add: step_download_def)
  from dn show ?thesis
  proof (cases rule: downloadNextSegment_cases)
    case idle
    with i show ?thesis unfolding eq by simp
  next
    case (start li)
    with i show ?thesis unfolding eq by (cases "i = li") simp_all
  next
    case (skip li)
    with i show ?thesis unfolding eq by simp
  next
    case (advance li)
    from advance inv have "state (segments (win s) ! (li + 1)) = pending"
      by (intro window_inv_next_pending) auto
    with advance i show ?thesis unfolding eq by (cases "i = li + 1") simp_all
  qed
qed

lemma segmentDone_allowed:
  assumes i: "i < length (segments w)"
  shows "i < length (segments (segmentDone j ok w))
         \<and> allowed (state (segments w ! i)) (state (segments (segmentDone j ok w) ! i))"
  using i by (cases "i = j") (auto simp: segmentDone_def)

lemma step_allowed:
  assumes inv: "window_inv s" and i: "i < length (segments (win s))"
  shows "i < length (segments (win (step rs u e s)))
         \<and> allowed (state (segments (win s) ! i)) (state (segments (win (step rs u e s)) ! i))"
proof (cases e)
  case (Updated v)
  show ?thesis
  proof (cases "updateDynamic v (win s)")
    case (Inl x)
    with i Updated show ?thesis by simp
  next
    case (Inr w')
    then show ?thesis
    proof (cases rule: updateDynamic_cases)
      case same
      with i Inr Updated show ?thesis by simp
    next
      case (appended new a b)
      with i Inr Updated show ?thesis by (simp add: nth_append)
    qed
  qed
next
  case (DownloadNext av d)
  with step_download_allowed [OF inv i] show ?thesis by simp
next
  case (SegmentDone j ok)
  with segmentDone_allowed [OF i] show ?thesis by simp
next
  case LoadManifest
  with i show ?thesis by (simp split: prod.splits)
next
  case (ManifestDelivered now)
  with i show ?thesis by simp
next
  case ManifestFailed
  with i show ?thesis by simp
next
  case (Tick now m v av d)
  let ?out = "tick now u m [()] (ctrl s) v"
  let ?s1 = "issue (sent_requests ?out) (s\<lparr>ctrl := controller_after ?out\<rparr>)"
  have "window_inv (issue (sent_requests ?out) (s\<lparr>win := win s, ctrl := controller_after ?out\<rparr>))"
    using inv tick_requests [of now u m "[()]" "ctrl s" v]
    by (intro window_inv_same_segments) auto
  then have inv1: "window_inv ?s1" by simp
  have w1: "win ?s1 = win s" by simp
  from i have i1: "i < length (segments (win ?s1))" by simp
  from step_download_allowed [OF inv1 i1, of rs u av d] i Tick show ?thesis
    by (simp add: Let_def)
qed

lemma candidate_download:
  assumes inv: "window_inv s" and c: "candidate (win s) = Some i"
    and av: "av (segments (win s) ! i)"
  shows "state (segments (win s) ! i) = pending
         \<and> (\<exists>w'. downloadNextSegment av rs d u (win s) (ctrl s)
                   = Inr (w', ctrl s, [GetMedia (url rs (segments (win s) ! i)) i])
                 \<and> state (segments w' ! i) = downloading)"
proof (cases "loadIndex (win s)")
  case None
  with c show ?thesis by (simp add: candidate_def)
next
  case (Some li)
  with c have lt: "li < length (segments (win s))"
    by (auto simp: candidate_def split: if_splits)
  show ?thesis
  proof (cases "state (segments (win s) ! li) = pending")
    case True
    with c Some lt have "i = li" by (simp add: candidate_def)
    with True Some lt av show ?thesis
      by (simp add: downloadNextSegment_def Let_def startDownload_eq)
  next
    case False
    with c Some lt have nd: "state (segments (win s) ! li) \<noteq> downloading"
      and nl: "li + 1 \<noteq> length (segments (win s))" and ii: "i = li + 1"
      by (auto simp: candidate_def split: if_splits)
    from nl lt have lt': "li + 1 < length (segments (win s))" by simp
    from window_inv_next_pending [OF inv Some lt'] have p: "state (segments (win s) ! i) = pending"
      using ii by simp
    from False nd have ge: "state_code (state (segments (win s) ! li)) \<ge> state_code downloaded"
      by (cases "state (segments (win s) ! li)") simp_all
    from Some lt nd nl ge ii lt' av p show ?thesis
      by (simp add: downloadNextSegment_def Let_def startDownload_eq)
  qed
qed

lemma window_inv_at_most_once:
  "window_inv s \<Longrightarrow> media_requests_for i (sent s) \<le> 1"
  by (cases "i < length (segments (win s))")
     (auto simp: window_inv_def)

lemma window_inv_once_iff:
  "window_inv s \<Longrightarrow> i < length (segments (win s)) \<Longrightarrow>
     (state (segments (win s) ! i) \<noteq> pending) = (media_requests_for i (sent s) = 1)"
  by (auto simp: window_inv_def)


text \<open>
  Claim C4. Take any run that starts from a window whose segments are all pending (a new
  window, or one just filled by the static update) and in which the source hands out
  pending segments. Then, in the state reached: no segment has been requested from the
  download collaborator more than once; a queued segment has left \<open>pending\<close> exactly when
  it has been requested exactly once, so a call on a segment that is already downloading
  adds no request; whatever event comes next, every queued segment stays queued and its
  state stays put or moves along pending, downloading, downloaded or errored; and when
  the segment the next call considers is available, it is pending, the call requests its
  URL (once) and leaves it downloading.
\<close>

theorem segment_requested_once:
  assumes "\<forall>x \<in> set (segments w0). state x = pending"
    and "\<forall>e \<in> set evs. fresh_event e"
  shows "(\<forall>i. media_requests_for i (sent (exec rs u evs (initial_config w0))) \<le> 1)
    \<and> (\<forall>i < length (segments (win (exec rs u evs (initial_config w0)))).
          (state (segments (win (exec rs u evs (initial_config w0))) ! i) \<noteq> pending)
            = (media_requests_for i (sent (exec rs u evs (initial_config w0))) = 1))
    \<and> (\<forall>e. \<forall>i < length (segments (win (exec rs u evs (initial_config w0)))).
          i < length (segments (win (step rs u e (exec rs u evs (initial_config w0)))))
          \<and> allowed (state (segments (win (exec rs u evs (initial_config w0))) ! i))
               (state (segments (win (step rs u e (exec rs u evs (initial_config w0)))) ! i)))
    \<and> (\<forall>av d i. candidate (win (exec rs u evs (initial_config w0))) = Some i
            \<and> av (segments (win (exec rs u evs (initial_config w0))) ! i) \<longrightarrow>
          state (segments (win (exec rs u evs (initial_config w0))) ! i) = pending
          \<and> (\<exists>w'. downloadNextSegment av rs d u (win (exec rs u evs (initial_config w0)))
                     (ctrl (exec rs u evs (initial_config w0)))
                   = Inr (w', ctrl (exec rs u evs (initial_config w0)),
                          [GetMedia (url rs (segments (win (exec rs u evs (initial_config w0))) ! i)) i])
                 \<and> state (segments w' ! i) = downloading))"
proof -
  let ?s = "exec rs u evs (initial_config w0)"
  have inv: "window_inv ?s"
    using assms by (intro exec_inv initial_inv)
  show ?thesis
    using window_inv_at_most_once [OF inv] window_inv_once_iff [OF inv]
      step_allowed [OF inv] candidate_download [OF inv]
    by blast
qed

lemma example_eval:
  "exec (\<lambda>seg. ''seg.m4s'') ''m.mpd'' example_run (initial_config new_window) =
     \<lparr> win = \<lparr> segments = [(fresh_segment 96 4)\<lparr>state := downloaded, cachedUrl := Some ''seg.m4s''\<rparr>,
                          (fresh_segment 100 4)\<lparr>state := downloading, cachedUrl := Some ''seg.m4s''\<rparr>],
               playIndex = None, loadIndex = Some 1, nextRangeStart = Some 104 \<rparr>,
       ctrl = new_controller,
       sent = [GetMedia ''seg.m4s'' 0, GetMedia ''seg.m4s'' 1],
       inflight = 0 \<rparr>"
  by (simp add: example_run_def example_view_def initial_config_def new_window_def
      live_view_def live_manifest_def fresh_segment_def updateDynamic_def rangeStartOf_def
      edgeSegment_def firstRangeStart_def mergeSegments_def Let_def step_download_def
      downloadNextSegment_def startDownload_def url_def issue_def mpd_requests_def
      segmentDone_def new_controller_def)

lemma example_first_update_eval:
  "exec (\<lambda>seg. ''seg.m4s'') ''m.mpd'' [Updated example_view] (initial_config new_window) =
     \<lparr> win = \<lparr> segments = [fresh_segment 96 4, fresh_segment 100 4],
               playIndex = None, loadIndex = Some 0, nextRangeStart = Some 104 \<rparr>,
       ctrl = new_controller, sent = [], inflight = 0 \<rparr>"
  by (simp add: example_view_def initial_config_def new_window_def
      live_view_def live_manifest_def fresh_segment_def updateDynamic_def rangeStartOf_def
      edgeSegment_def firstRangeStart_def mergeSegments_def Let_def)

theorem segment_requested_once_witness:
  "sent (exec (\<lambda>seg. ''seg.m4s'') ''m.mpd'' example_run (initial_config new_window))
     = [GetMedia ''seg.m4s'' 0, GetMedia ''seg.m4s'' 1]
   \<and> state (segments (win (exec (\<lambda>seg. ''seg.m4s'') ''m.mpd'' example_run
        (initial_config new_window))) ! 0) = downloaded
   \<and> media_requests_for 0
        (sent (exec (\<lambda>seg. ''seg.m4s'') ''m.mpd'' example_run (initial_config new_window))) = 1
   \<and> media_requests_for 1
        (sent (exec (\<lambda>seg. ''seg.m4s'') ''m.mpd'' example_run (initial_config new_window))) \<le> 1
   \<and> allowed
        (state (segments (win (exec (\<lambda>seg. ''seg.m4s'') ''m.mpd'' example_run
           (initial_config new_window))) ! 1))
        (state (segments (win (step (\<lambda>seg. ''seg.m4s'') ''m.mpd'' (SegmentDone 1 False)
           (exec (\<lambda>seg. ''seg.m4s'') ''m.mpd'' example_run (initial_config new_window)))) ! 1))
   \<and> candidate (win (exec (\<lambda>seg. ''seg.m4s'') ''m.mpd'' [Updated example_view]
        (initial_config new_window))) = Some 0
   \<and> (\<exists>w'. downloadNextSegment (\<lambda>seg. True) (\<lambda>seg. ''seg.m4s'') None ''m.mpd''
              (win (exec (\<lambda>seg. ''seg.m4s'') ''m.mpd'' [Updated example_view]
                 (initial_config new_window)))
              (ctrl (exec (\<lambda>seg. ''seg.m4s'') ''m.mpd'' [Updated example_view]
                 (initial_config new_window)))
            = Inr (w', ctrl (exec (\<lambda>seg. ''seg.m4s'') ''m.mpd'' [Updated example_view]
                         (initial_config new_window)),
                   [GetMedia (url (\<lambda>seg. ''seg.m4s'')
                      (segments (win (exec (\<lambda>seg. ''seg.m4s'') ''m.mpd'' [Updated example_view]
                         (initial_config new_window))) ! 0)) 0])
          \<and> state (segments w' ! 0) = downloading)"
proof -
  let ?rs = "\<lambda>seg::segment. ''seg.m4s''"
  let ?s = "exec ?rs ''m.mpd'' example_run (initial_config new_window)"
  let ?t = "exec ?rs ''m.mpd'' [Updated example_view] (initial_config new_window)"
  have h1: "\<forall>x \<in> set (segments new_window). state x = pending"
    by (simp add: new_window_def)
  have fr: "fresh_event (Updated example_view)"
    by (simp add: example_view_def live_view_def fresh_segment_def)
  have h2: "\<forall>e \<in> set example_run. fresh_event e"
    using fr by (simp add: example_run_def)
  have h3: "\<forall>e \<in> set [Updated example_view]. fresh_event e"
    using fr by simp
  note run = segment_requested_once [OF h1 h2, of ?rs "''m.mpd''"]
  note first = segment_requested_once [OF h1 h3, of ?rs "''m.mpd''"]
  have q: "sent ?s = [GetMedia ''seg.m4s'' 0, GetMedia ''seg.m4s'' 1]"
    by (simp only: example_eval config.simps)
  have st: "state (segments (win ?s) ! 0) = downloaded"
    unfolding example_eval by simp
  have len: "0 < length (segments (win ?s))" "1 < length (segments (win ?s))"
    unfolding example_eval by simp_all
  note at_most = run [THEN conjunct1, rule_format]
  note once_iff = run [THEN conjunct2, THEN conjunct1, rule_format]
  note moves = run [THEN conjunct2, THEN conjunct2, THEN conjunct1, rule_format]
  note starts = first [THEN conjunct2, THEN conjunct2, THEN conjunct2, rule_format]
  from once_iff [OF len(1)] st have once: "media_requests_for 0 (sent ?s) = 1" by simp
  from at_most [of 1] have most: "media_requests_for 1 (sent ?s) \<le> 1" .
  from moves [OF len(2), of "SegmentDone 1 False"]
  have mv: "allowed (state (segments (win ?s) ! 1))
              (state (segments (win (step ?rs ''m.mpd'' (SegmentDone 1 False) ?s)) ! 1))"
    by (rule conjunct2)
  have cand: "candidate (win ?t) = Some 0"
    unfolding example_first_update_eval by (simp add: candidate_def fresh_segment_def)
  then have "candidate (win ?t) = Some 0 \<and> (\<lambda>seg. True) (segments (win ?t) ! 0)" by simp
  from starts [OF this, of None]
  have dl: "\<exists>w'. downloadNextSegment (\<lambda>seg. True) ?rs None ''m.mpd'' (win ?t) (ctrl ?t)
                = Inr (w', ctrl ?t, [GetMedia (url ?rs (segments (win ?t) ! 0)) 0])
              \<and> state (segments w' ! 0) = downloading"
    by (rule conjunct2)
  show ?thesis
    by (intro conjI) (rule q st once most mv cand dl)+
qed

end
